theory Spec2Isabelle
  imports Main "HOL-Library.Sublist"
begin

section \<open>Data model of the rules document (src/ui/RulesApp.tsx)\<close>

text \<open>
  Strings are lists of \<^typ>\<open>char\<close>; one \<^typ>\<open>char\<close> stands for one code unit of the
  TypeScript string. Optional properties of the TypeScript types are \<^typ>\<open>'a option\<close>.
\<close>

datatype RuleSpan = RuleSpan (span_text: "string option")

text \<open>The shape \<^verbatim>\<open>{ text: string; spans?: RuleSpan[] }\<close> of list items and table cells.\<close>

datatype RuleText = RuleText (rtext: string) (spans: "RuleSpan list option")

datatype RuleBlock =
    Paragraph (ptext: string) (pspans: "RuleSpan list option")
  | ListBlock (list_ordered: "bool option") (list_items: "RuleText list option")
  | Table (table_rows: "RuleText list list")

text \<open>A \<^verbatim>\<open>RuleDoc\<close> is a \<^verbatim>\<open>RuleSection\<close> with the optional property \<^verbatim>\<open>file\<close>.\<close>

datatype RuleSection =
  RuleSection (sec_title: string) (sec_slug: "string option") (sec_level: "nat option")
    (sec_content: "RuleBlock list option") (sec_sections: "RuleSection list option")
    (sec_file: "string option")

fun isParagraph :: "RuleBlock \<Rightarrow> bool" where
  "isParagraph (Paragraph t sp) = True"
| "isParagraph b = False"

section \<open>Content normalizer\<close>

definition flattenTableText :: "RuleText list list \<Rightarrow> string list" where
  "flattenTableText rws = map rtext (concat rws)"

text \<open>
  The inner loop of \<^verbatim>\<open>normalizeContent\<close>:
  \<^verbatim>\<open>for (let k = 0; k < tableTexts.length && j < content.length; k++, j++)\<close>,
  left by \<^verbatim>\<open>break\<close> at the first block that is no paragraph or whose text differs.
  The result is the final value of \<^verbatim>\<open>j\<close>.
\<close>

function dupScan :: "RuleBlock list \<Rightarrow> string list \<Rightarrow> nat \<Rightarrow> nat \<Rightarrow> nat" where
  "dupScan content tableTexts k j =
     (if k < length tableTexts \<and> j < length content then
        (case content ! j of
           Paragraph t sp \<Rightarrow>
             if t \<noteq> tableTexts ! k then j
             else dupScan content tableTexts (k + 1) (j + 1)
         | _ \<Rightarrow> j)
      else j)"
  by pat_completeness auto
termination
  by (relation "measure (\<lambda>(content, tableTexts, k, j). length content - j)") auto

declare dupScan.simps [simp del]

lemma dupScan_stop:
  "\<not> (k < length tableTexts \<and> j < length content) \<Longrightarrow> dupScan content tableTexts k j = j"
  by (subst dupScan.simps) auto

lemma dupScan_step:
  "k < length tableTexts \<Longrightarrow> j < length content \<Longrightarrow>
   dupScan content tableTexts k j =
     (case content ! j of
        Paragraph t sp \<Rightarrow>
          if t \<noteq> tableTexts ! k then j else dupScan content tableTexts (k + 1) (j + 1)
      | _ \<Rightarrow> j)"
  by (subst dupScan.simps) auto

lemma dupScan_ge: "j \<le> dupScan content tableTexts k j"
proof (induction content tableTexts k j rule: dupScan.induct)
  case (1 content tableTexts k j)
  show ?case
  proof (cases "k < length tableTexts \<and> j < length content")
    case False
    then show ?thesis by (simp add: dupScan_stop)
  next
    case True
    then show ?thesis
      using 1 by (cases "content ! j") (auto simp: dupScan_step intro: Suc_leD)
  qed
qed

lemma dupScan_le: "j \<le> length content \<Longrightarrow> dupScan content tableTexts k j \<le> length content"
proof (induction content tableTexts k j rule: dupScan.induct)
  case (1 content tableTexts k j)
  show ?case
  proof (cases "k < length tableTexts \<and> j < length content")
    case False
    then show ?thesis using 1 by (simp add: dupScan_stop)
  next
    case True
    then show ?thesis
      using 1 by (cases "content ! j") (auto simp: dupScan_step)
  qed
qed

lemma normLoop_measure:
  assumes "i < length content" and "Suc i < dupScan content tableTexts k (Suc i)"
  shows "length content - Suc (dupScan content tableTexts k (Suc i) - Suc 0) < length content - i"
  using assms dupScan_le [of "Suc i" content tableTexts k] by auto

text \<open>The outer loop over \<^verbatim>\<open>i\<close>, with the output array \<^verbatim>\<open>out\<close> passed along.\<close>

function normLoop :: "RuleBlock list \<Rightarrow> nat \<Rightarrow> RuleBlock list \<Rightarrow> RuleBlock list" where
  "normLoop content i out =
     (if i < length content then
        (let block = content ! i; out' = out @ [block] in
         case block of
           Table rws \<Rightarrow>
             (let tableTexts = filter (\<lambda>t. length t > 0) (flattenTableText rws) in
              if tableTexts = [] then normLoop content (i + 1) out'
              else
                (let j = dupScan content tableTexts 0 (i + 1);
                     duplicateCount = j - (i + 1);
                     i' = (if duplicateCount > 0 then i + duplicateCount else i)
                 in normLoop content (i' + 1) out'))
         | _ \<Rightarrow> normLoop content (i + 1) out')
      else out)"
  by pat_completeness auto
termination
  by (relation "measure (\<lambda>(content, i, out). length content - i)")
    (auto simp: normLoop_measure)

declare normLoop.simps [simp del]

definition normalizeContent :: "RuleBlock list \<Rightarrow> RuleBlock list" where
  "normalizeContent content = normLoop content 0 []"

subsection \<open>The normalizer as the specification words it\<close>

text \<open>
  \<open>dupRun cs bs\<close> is the length of the longest run of blocks at the front of \<open>bs\<close>
  that are paragraphs whose texts are \<open>cs\<close> in order: it ends at the first mismatch, at
  the first block that is no paragraph, at the end of the input, or when \<open>cs\<close> is used up.
\<close>

fun dupRun :: "string list \<Rightarrow> RuleBlock list \<Rightarrow> nat" where
  "dupRun (c # cs) (Paragraph t sp # bs) = (if t = c then Suc (dupRun cs bs) else 0)"
| "dupRun cs bs = 0"

definition tableCells :: "RuleBlock \<Rightarrow> string list" where
  "tableCells b = (case b of Table rws \<Rightarrow> filter (\<lambda>t. t \<noteq> []) (flattenTableText rws) | _ \<Rightarrow> [])"

fun normalize_spec :: "RuleBlock list \<Rightarrow> RuleBlock list" where
  "normalize_spec [] = []"
| "normalize_spec (b # bs) = b # normalize_spec (drop (dupRun (tableCells b) bs) bs)"

subsection \<open>The loops compute the specification's normalizer\<close>

lemma dupScan_dupRun:
  "dupScan content tableTexts k j = j + dupRun (drop k tableTexts) (drop j content)"
proof (induction content tableTexts k j rule: dupScan.induct)
  case (1 content tableTexts k j)
  show ?case
  proof (cases "k < length tableTexts \<and> j < length content")
    case False
    then show ?thesis by (auto simp: dupScan_stop)
  next
    case True
    then have d: "drop k tableTexts = tableTexts ! k # drop (Suc k) tableTexts"
      "drop j content = content ! j # drop (Suc j) content"
      by (simp_all add: Cons_nth_drop_Suc)
    show ?thesis
      using True 1 by (cases "content ! j") (auto simp: dupScan_step d)
  qed
qed

lemma dupRun_le: "dupRun cs bs \<le> length bs"
  by (induction cs bs rule: dupRun.induct) auto

lemma normLoop_spec:
  "i \<le> length content \<Longrightarrow> normLoop content i out = out @ normalize_spec (drop i content)"
proof (induction content i out rule: normLoop.induct)
  case (1 content i out)
  show ?case
  proof (cases "i < length content")
    case False
    with 1 show ?thesis by (subst normLoop.simps) simp
  next
    case True
    then have d: "drop i content = content ! i # drop (Suc i) content"
      by (simp add: Cons_nth_drop_Suc)
    show ?thesis
    proof (cases "content ! i")
      case (Paragraph t sp)
      with True 1 show ?thesis
        by (subst normLoop.simps) (simp add: d tableCells_def)
    next
      case (ListBlock ord its)
      with True 1 show ?thesis
        by (subst normLoop.simps) (simp add: d tableCells_def)
    next
      case (Table rws)
      let ?tt = "filter (\<lambda>t. 0 < length t) (flattenTableText rws)"
      let ?n = "dupRun ?tt (drop (Suc i) content)"
      have n: "?n \<le> length content - Suc i"
        using dupRun_le [of ?tt "drop (Suc i) content"] by simp
      show ?thesis
      proof (cases "?tt = []")
        case True
        with \<open>i < length content\<close> Table 1 show ?thesis
          by (subst normLoop.simps) (simp add: d tableCells_def)
      next
        case False
        have e: "(if 0 < m then i + m else i) = i + m" for m :: nat
          by simp
        have j: "dupScan content ?tt 0 (i + 1) = Suc i + ?n"
          by (simp add: dupScan_dupRun)
        have "normLoop content i out = normLoop content (Suc i + ?n) (out @ [content ! i])"
          using True Table False j by (subst normLoop.simps) (simp add: Let_def cong: if_cong)
        also have "\<dots> = (out @ [content ! i]) @ normalize_spec (drop (Suc i + ?n) content)"
          using "1.IH"(4) [OF True refl refl Table refl False refl refl refl] n True j
          by (simp add: Let_def e cong: if_cong)
        finally show ?thesis
          using Table by (simp add: d tableCells_def add.commute)
      qed
    qed
  qed
qed

lemma normalizeContent_spec: "normalizeContent content = normalize_spec content"
  by (simp add: normalizeContent_def normLoop_spec)


lemma dupRun_le_cells: "dupRun cs bs \<le> length cs"
  by (induction cs bs rule: dupRun.induct) auto

lemma dupRun_nth:
  "k < dupRun cs bs \<Longrightarrow> \<exists>sp. bs ! k = Paragraph (cs ! k) sp"
proof (induction cs bs arbitrary: k rule: dupRun.induct)
  case (1 c cs t sp bs)
  then show ?case by (cases k) (auto split: if_splits)
qed auto

lemma dupRun_maximal:
  "dupRun cs bs = length cs \<or> dupRun cs bs = length bs \<or>
   \<not> (\<exists>sp. bs ! dupRun cs bs = Paragraph (cs ! dupRun cs bs) sp)"
  by (induction cs bs rule: dupRun.induct) auto

lemma dupRun_take_paragraphs: "b \<in> set (take (dupRun cs bs) bs) \<Longrightarrow> isParagraph b"
  by (induction cs bs rule: dupRun.induct) (auto split: if_splits)

lemma dupRun_append_nonparagraph:
  "\<not> isParagraph b \<Longrightarrow> dupRun cs (pre @ b # rest) = dupRun cs pre"
proof (induction pre arbitrary: cs)
  case Nil
  then show ?case by (cases cs; cases b) auto
next
  case (Cons a pre)
  then show ?case by (cases cs; cases a) auto
qed

lemma normalize_spec_append:
  "\<not> isParagraph b \<Longrightarrow>
   normalize_spec (pre @ b # rest) = normalize_spec pre @ normalize_spec (b # rest)"
proof (induction pre rule: normalize_spec.induct)
  case 1
  then show ?case by simp
next
  case (2 a bs)
  let ?n = "dupRun (tableCells a) bs"
  have n: "?n \<le> length bs" by (rule dupRun_le)
  have "dupRun (tableCells a) (bs @ b # rest) = ?n"
    using 2 by (simp add: dupRun_append_nonparagraph)
  then show ?case using 2 n by simp
qed

lemma subseq_normalize_spec: "subseq (normalize_spec bs) bs"
proof (induction bs rule: normalize_spec.induct)
  case 1
  then show ?case by simp
next
  case (2 b bs)
  have "subseq (drop (dupRun (tableCells b) bs) bs) bs"
    by (metis append_take_drop_id list_emb_append2 subseq_order.order_refl)
  with 2 show ?case
    by (auto intro: subseq_order.order_trans)
qed

lemma filter_drop_paragraphs:
  "\<forall>b \<in> set (take n bs). isParagraph b \<Longrightarrow>
   filter (\<lambda>b. \<not> isParagraph b) (drop n bs) = filter (\<lambda>b. \<not> isParagraph b) bs"
proof -
  assume a: "\<forall>b \<in> set (take n bs). isParagraph b"
  have "filter (\<lambda>b. \<not> isParagraph b) bs =
        filter (\<lambda>b. \<not> isParagraph b) (take n bs) @ filter (\<lambda>b. \<not> isParagraph b) (drop n bs)"
    by (metis append_take_drop_id filter_append)
  moreover have "filter (\<lambda>b. \<not> isParagraph b) (take n bs) = []"
    using a by (simp add: filter_empty_conv)
  ultimately show ?thesis by simp
qed

lemma filter_normalize_spec:
  "filter (\<lambda>b. \<not> isParagraph b) (normalize_spec bs) = filter (\<lambda>b. \<not> isParagraph b) bs"
proof (induction bs rule: normalize_spec.induct)
  case 1
  then show ?case by simp
next
  case (2 b bs)
  have "filter (\<lambda>b. \<not> isParagraph b) (drop (dupRun (tableCells b) bs) bs)
      = filter (\<lambda>b. \<not> isParagraph b) bs"
    by (rule filter_drop_paragraphs) (auto dest: dupRun_take_paragraphs)
  with 2 show ?case by simp
qed

text \<open>
  C5. The normalizer keeps the block it stands at and goes on after the \<open>n\<close> blocks that
  follow it, where \<open>n\<close> is 0 for a block that is no table and, for a table with flattened
  non-empty cell texts \<open>cs\<close>, the length of the longest run of following paragraphs whose
  texts are \<open>cs ! 0\<close>, \<open>cs ! 1\<close>, ... in order: the run ends at the first paragraph with
  another text, at the first block that is no paragraph, at the end of the input, or
  after all of \<open>cs\<close>. So exactly the run is removed: the block after the run, if there is
  one, is the next block of the output. With the empty input these equations fix the
  output for every input; the last conjunct is the case of a table anywhere in the input.
\<close>

theorem normalizeContent_removes_table_echo:
  "normalizeContent [] = []
   \<and> tableCells (Table rws) = filter (\<lambda>t. t \<noteq> []) (flattenTableText rws)
   \<and> tableCells (Paragraph t sp) = [] \<and> tableCells (ListBlock ord its) = []
   \<and> (let cs = tableCells b; n = dupRun cs rest in
        normalizeContent (b # rest) = b # normalizeContent (drop n rest)
        \<and> n \<le> length cs \<and> n \<le> length rest
        \<and> (\<forall>k<n. \<exists>sp'. rest ! k = Paragraph (cs ! k) sp')
        \<and> (n = length cs \<or> n = length rest
             \<or> \<not> (\<exists>sp'. rest ! n = Paragraph (cs ! n) sp'))
        \<and> (n < length rest \<longrightarrow>
             (\<exists>more. normalizeContent (b # rest) = b # rest ! n # more)))
   \<and> normalizeContent (pre @ Table rws # rest) =
        normalizeContent pre @ Table rws
          # normalizeContent (drop (dupRun (tableCells (Table rws)) rest) rest)"
proof -
  let ?cs = "tableCells b"
  let ?n = "dupRun ?cs rest"
  have step: "normalizeContent (b # rest) = b # normalizeContent (drop ?n rest)"
    by (simp add: normalizeContent_spec)
  have next_kept: "\<exists>more. normalizeContent (b # rest) = b # rest ! ?n # more"
    if "?n < length rest"
  proof -
    from that have "drop ?n rest = rest ! ?n # drop (Suc ?n) rest"
      by (simp add: Cons_nth_drop_Suc)
    then show ?thesis
      unfolding step normalizeContent_spec by simp
  qed
  have "\<forall>k<?n. \<exists>sp'. rest ! k = Paragraph (?cs ! k) sp'"
    by (simp add: dupRun_nth)
  moreover note step next_kept
    dupRun_le_cells [of ?cs rest] dupRun_le [of ?cs rest] dupRun_maximal [of ?cs rest]
  moreover have "normalizeContent [] = []"
    by (simp add: normalizeContent_spec)
  moreover have "tableCells (Table rws) = filter (\<lambda>t. t \<noteq> []) (flattenTableText rws)"
    "tableCells (Paragraph t sp) = []" "tableCells (ListBlock ord its) = []"
    by (simp_all add: tableCells_def)
  moreover have "normalizeContent (pre @ Table rws # rest) =
        normalizeContent pre @ Table rws
          # normalizeContent (drop (dupRun (tableCells (Table rws)) rest) rest)"
    by (simp add: normalizeContent_spec normalize_spec_append)
  ultimately show ?thesis
    unfolding Let_def by blast
qed

theorem normalizeContent_removes_table_echo_witness:
  "normalizeContent
     [Table [[RuleText ''A'' None, RuleText ''B'' None]],
      Paragraph ''A'' None, Paragraph ''B'' None, Paragraph ''C'' None]
   = [Table [[RuleText ''A'' None, RuleText ''B'' None]], Paragraph ''C'' None]
   \<and> normalizeContent
     [Table [[RuleText ''A'' None, RuleText ''B'' None]],
      Paragraph ''Z'' None, Paragraph ''B'' None]
   = [Table [[RuleText ''A'' None, RuleText ''B'' None]],
      Paragraph ''Z'' None, Paragraph ''B'' None]"
proof -
  let ?T = "Table [[RuleText ''A'' None, RuleText ''B'' None]]"
  let ?r1 = "[Paragraph ''A'' None, Paragraph ''B'' None, Paragraph ''C'' None]"
  let ?r2 = "[Paragraph ''Z'' None, Paragraph ''B'' None]"
  have e: "normalizeContent [Paragraph ''C'' None] = [Paragraph ''C'' None]"
    "normalizeContent ?r2 = ?r2"
    by (simp_all add: normalizeContent_def normLoop.simps)
  have c: "tableCells ?T = [''A'', ''B'']"
    by (simp add: tableCells_def flattenTableText_def)
  have d: "dupRun [''A'', ''B''] ?r1 = 2" "dupRun [''A'', ''B''] ?r2 = 0"
    by simp_all
  have "normalizeContent (?T # ?r1)
      = ?T # normalizeContent (drop (dupRun (tableCells ?T) ?r1) ?r1)"
    using normalizeContent_removes_table_echo [where b = ?T and rest = ?r1]
    unfolding Let_def by blast
  then have one: "normalizeContent (?T # ?r1) = [?T, Paragraph ''C'' None]"
    unfolding c d by (simp add: e)
  have "normalizeContent (?T # ?r2)
      = ?T # normalizeContent (drop (dupRun (tableCells ?T) ?r2) ?r2)"
    using normalizeContent_removes_table_echo [where b = ?T and rest = ?r2]
    unfolding Let_def by blast
  then have two: "normalizeContent (?T # ?r2) = ?T # ?r2"
    unfolding c d by (simp add: e)
  from one two show ?thesis by simp
qed

text \<open>
  C9. The output of the normalizer is a subsequence of its input, and the blocks that are
  not paragraphs (tables and lists) are the same, in the same order, before and after:
  only paragraphs are ever removed.
\<close>

theorem normalizeContent_subseq:
  "subseq (normalizeContent content) content
   \<and> filter (\<lambda>b. \<not> isParagraph b) (normalizeContent content)
     = filter (\<lambda>b. \<not> isParagraph b) content"
  by (simp add: normalizeContent_spec subseq_normalize_spec filter_normalize_spec)

section \<open>Strings\<close>

text \<open>
  A \<^typ>\<open>char\<close> stands for one UTF-16 code unit below 256 (Basic Latin and Latin-1
  Supplement), \<open>code c\<close> is its number. The character classes and case mappings below
  are those of ECMAScript restricted to that range.
\<close>

definition code :: "char \<Rightarrow> nat" where
  "code c = of_char c"

text \<open>White space as \<^verbatim>\<open>\s\<close> and \<^verbatim>\<open>String.prototype.trim\<close> see it.\<close>

definition isWhitespace :: "char \<Rightarrow> bool" where
  "isWhitespace c = (code c \<in> {9, 10, 11, 12, 13, 32, 160})"

text \<open>Line terminators: the characters \<^verbatim>\<open>.\<close> does not match.\<close>

definition isLineTerminator :: "char \<Rightarrow> bool" where
  "isLineTerminator c = (code c = 10 \<or> code c = 13)"

definition isUpperAZ :: "char \<Rightarrow> bool" where
  "isUpperAZ c = (65 \<le> code c \<and> code c \<le> 90)"

definition isLowerAZ :: "char \<Rightarrow> bool" where
  "isLowerAZ c = (97 \<le> code c \<and> code c \<le> 122)"

definition isDigit :: "char \<Rightarrow> bool" where
  "isDigit c = (48 \<le> code c \<and> code c \<le> 57)"

text \<open>The class \<^verbatim>\<open>[A-Za-z0-9]\<close>.\<close>

definition isAlnum :: "char \<Rightarrow> bool" where
  "isAlnum c = (isUpperAZ c \<or> isLowerAZ c \<or> isDigit c)"

text \<open>The class \<^verbatim>\<open>[a-z0-9]\<close>.\<close>

definition isLowerAlnum :: "char \<Rightarrow> bool" where
  "isLowerAlnum c = (isLowerAZ c \<or> isDigit c)"

text \<open>Word characters of \<^verbatim>\<open>\b\<close>: \<^verbatim>\<open>[A-Za-z0-9_]\<close>.\<close>

definition isWordChar :: "char \<Rightarrow> bool" where
  "isWordChar c = (isAlnum c \<or> code c = 95)"

text \<open>
  Upper and lower case differ by 32, which is bit 5 of the code unit: lower case has it
  set. Besides A-Z the range holds the Latin-1 capitals 192-222 (215, the multiplication
  sign, has no case).
\<close>

definition hasLower :: "char \<Rightarrow> bool" where
  "hasLower c = (isUpperAZ c \<or> (192 \<le> code c \<and> code c \<le> 222 \<and> code c \<noteq> 215))"

definition hasUpper :: "char \<Rightarrow> bool" where
  "hasUpper c = (isLowerAZ c \<or> (224 \<le> code c \<and> code c \<le> 254 \<and> code c \<noteq> 247))"

fun setBit5 :: "bool \<Rightarrow> char \<Rightarrow> char" where
  "setBit5 b (Char b0 b1 b2 b3 b4 b5 b6 b7) = Char b0 b1 b2 b3 b4 b b6 b7"

definition toLowerChar :: "char \<Rightarrow> char" where
  "toLowerChar c = (if hasLower c then setBit5 True c else c)"

text \<open>
  The canonical form under which a regular expression with the flag \<^verbatim>\<open>i\<close> compares
  characters: the upper case, where that is one code unit of the range.
\<close>

definition toUpperChar :: "char \<Rightarrow> char" where
  "toUpperChar c = (if hasUpper c then setBit5 False c else c)"

definition toLowerCase :: "string \<Rightarrow> string" where
  "toLowerCase s = map toLowerChar s"

definition trim :: "string \<Rightarrow> string" where
  "trim s = rev (dropWhile isWhitespace (rev (dropWhile isWhitespace s)))"

text \<open>
  \<^verbatim>\<open>hay.indexOf(q, idx)\<close>: the least position from \<open>idx\<close> on at which \<open>q\<close> occurs in
  \<open>hay\<close>; \<open>None\<close> stands for \<^verbatim>\<open>-1\<close>.
\<close>

definition occursAt :: "string \<Rightarrow> string \<Rightarrow> nat \<Rightarrow> bool" where
  "occursAt hay q i = (i + length q \<le> length hay \<and> take (length q) (drop i hay) = q)"

function indexOf :: "string \<Rightarrow> string \<Rightarrow> nat \<Rightarrow> nat option" where
  "indexOf hay q idx =
     (if length hay < idx + length q then None
      else if occursAt hay q idx then Some idx
      else indexOf hay q (idx + 1))"
  by pat_completeness auto
termination
  by (relation "measure (\<lambda>(hay, q, idx). Suc (length hay) - idx)") (auto simp: occursAt_def)

declare indexOf.simps [simp del]

definition includesStr :: "string \<Rightarrow> string \<Rightarrow> bool" where
  "includesStr hay q = (indexOf hay q 0 \<noteq> None)"

section \<open>Maps that keep the order of insertion\<close>

text \<open>
  A JavaScript \<^verbatim>\<open>Map\<close> is a list of entries in the order of first insertion:
  \<^verbatim>\<open>set\<close> on a key that is present replaces the value where the entry stands, on a
  new key it adds the entry at the end.
\<close>

type_synonym ('k, 'v) jsmap = "('k \<times> 'v) list"

definition mapGet :: "('k, 'v) jsmap \<Rightarrow> 'k \<Rightarrow> 'v option" where
  "mapGet m k = map_of m k"

definition mapHas :: "('k, 'v) jsmap \<Rightarrow> 'k \<Rightarrow> bool" where
  "mapHas m k = (map_of m k \<noteq> None)"

fun mapSet :: "('k, 'v) jsmap \<Rightarrow> 'k \<Rightarrow> 'v \<Rightarrow> ('k, 'v) jsmap" where
  "mapSet [] k v = [(k, v)]"
| "mapSet ((k', v') # m) k v = (if k' = k then (k, v) # m else (k', v') # mapSet m k v)"

definition mapKeys :: "('k, 'v) jsmap \<Rightarrow> 'k list" where
  "mapKeys m = map fst m"

section \<open>Search: serialization, matching, counting, filtering\<close>

subsection \<open>The documents as JSON values\<close>

text \<open>
  The rules documents are JSON data, and \<^verbatim>\<open>JSON.stringify\<close> writes the properties of
  an object in the order the object holds them. The search functions are therefore
  modelled on JSON values, an object being the list of its properties in its own order;
  the types \<^verbatim>\<open>RuleSection\<close> and \<^verbatim>\<open>RuleBlock\<close> say which properties an object has,
  not in which order. The numbers of the documents are natural numbers (\<^verbatim>\<open>level\<close>).
\<close>

datatype json =
    JNull
  | JBool bool
  | JNumber nat
  | JString string
  | JArray "json list"
  | JObject "(string \<times> json) list"

definition dquote :: char where
  "dquote = CHR 0x22"

definition backslash :: char where
  "backslash = CHR 0x5C"

definition hexDigit :: "nat \<Rightarrow> char" where
  "hexDigit n = ''0123456789abcdef'' ! (n mod 16)"

text \<open>One character inside a JSON string literal (\<^verbatim>\<open>QuoteJSONString\<close>).\<close>

definition escapeJSONChar :: "char \<Rightarrow> string" where
  "escapeJSONChar c =
     (if c = dquote then [backslash, dquote]
      else if c = backslash then [backslash, backslash]
      else if code c = 8 then [backslash, CHR ''b'']
      else if code c = 9 then [backslash, CHR ''t'']
      else if code c = 10 then [backslash, CHR ''n'']
      else if code c = 12 then [backslash, CHR ''f'']
      else if code c = 13 then [backslash, CHR ''r'']
      else if code c < 32 then
        [backslash, CHR ''u'', CHR ''0'', CHR ''0'', hexDigit (code c div 16), hexDigit (code c)]
      else [c])"

definition escapeJSON :: "string \<Rightarrow> string" where
  "escapeJSON s = concat (map escapeJSONChar s)"

definition quoteJSON :: "string \<Rightarrow> string" where
  "quoteJSON s = [dquote] @ escapeJSON s @ [dquote]"

fun joinWith :: "string \<Rightarrow> string list \<Rightarrow> string" where
  "joinWith sep [] = []"
| "joinWith sep [x] = x"
| "joinWith sep (x # y # ys) = x @ sep @ joinWith sep (y # ys)"

definition jsonArray :: "string list \<Rightarrow> string" where
  "jsonArray vs = ''['' @ joinWith '','' vs @ '']''"

text \<open>An object, from its properties already serialized.\<close>

definition jsonObject :: "string list \<Rightarrow> string" where
  "jsonObject props = ''{'' @ joinWith '','' props @ ''}''"

definition jsonProp :: "string \<Rightarrow> string \<Rightarrow> string" where
  "jsonProp k v = quoteJSON k @ '':'' @ v"

function showNat :: "nat \<Rightarrow> string" where
  "showNat n = (if n < 10 then [hexDigit n] else showNat (n div 10) @ [hexDigit (n mod 10)])"
  by pat_completeness auto
termination
  by (relation "measure id") auto

declare showNat.simps [simp del]

definition showBool :: "bool \<Rightarrow> string" where
  "showBool b = (if b then ''true'' else ''false'')"

text \<open>\<^verbatim>\<open>JSON.stringify(value)\<close>, without indentation.\<close>

fun stringify :: "json \<Rightarrow> string" where
  "stringify JNull = ''null''"
| "stringify (JBool b) = showBool b"
| "stringify (JNumber n) = showNat n"
| "stringify (JString s) = quoteJSON s"
| "stringify (JArray vs) = jsonArray (map stringify vs)"
| "stringify (JObject props) = jsonObject (map (\<lambda>(k, v). jsonProp k (stringify v)) props)"

subsection \<open>The search functions\<close>

definition sectionMatchesQuery :: "json \<Rightarrow> string \<Rightarrow> bool" where
  "sectionMatchesQuery section q =
     (if q = [] then True
      else (let hay = toLowerCase (stringify section) in includesStr hay q))"

text \<open>
  The loop \<^verbatim>\<open>while (true)\<close> of \<^verbatim>\<open>countQueryMatches\<close>. It is left only when
  \<^verbatim>\<open>indexOf\<close> finds nothing, so it is a partial function: \<open>None\<close> is a loop that
  does not return.
\<close>

partial_function (option) countLoop :: "string \<Rightarrow> string \<Rightarrow> nat \<Rightarrow> nat \<Rightarrow> nat option" where
  "countLoop hay q idx count =
     (case indexOf hay q idx of
        None \<Rightarrow> Some count
      | Some hit \<Rightarrow> countLoop hay q (hit + length q) (count + 1))"

definition countQueryMatches :: "json \<Rightarrow> string \<Rightarrow> nat option" where
  "countQueryMatches section q =
     (if q = [] then Some 0
      else (let hay = toLowerCase (stringify section) in countLoop hay q 0 0))"

text \<open>\<^verbatim>\<open>.filter(Boolean)\<close> on an array of sections and \<^verbatim>\<open>null\<close>s.\<close>

fun filterBoolean :: "'a option list \<Rightarrow> 'a list" where
  "filterBoolean [] = []"
| "filterBoolean (None # xs) = filterBoolean xs"
| "filterBoolean (Some x # xs) = x # filterBoolean xs"

text \<open>
  \<^verbatim>\<open>section.sections ?? []\<close>: the array under the property \<^verbatim>\<open>sections\<close>, no
  sections where the property is absent or \<^verbatim>\<open>null\<close>. The type admits no other value
  there.
\<close>

definition childSections :: "(string \<times> json) list \<Rightarrow> json list" where
  "childSections props =
     (case mapGet props ''sections'' of Some (JArray l) \<Rightarrow> l | _ \<Rightarrow> [])"

lemma size_property: "(k, v) \<in> set props \<Longrightarrow> size v < Suc (size_list (size_prod (\<lambda>x. 0) size) props)"
  by (induction props) auto

lemma size_element: "x \<in> set l \<Longrightarrow> size x < Suc (size_list size l)"
  by (induction l) auto

lemma size_childSections:
  "s \<in> set (childSections props) \<Longrightarrow> size s < Suc (size_list (size_prod (\<lambda>x. 0) size) props)"
proof -
  assume a: "s \<in> set (childSections props)"
  then have "\<exists>l. map_of props ''sections'' = Some (JArray l) \<and> s \<in> set l"
    by (cases "map_of props ''sections''")
      (auto simp: childSections_def mapGet_def split: json.splits)
  then obtain l where l: "map_of props ''sections'' = Some (JArray l)" "s \<in> set l"
    by blast
  then have "(''sections'', JArray l) \<in> set props" by (simp add: map_of_SomeD)
  from size_property [OF this] size_element [OF l(2)] show ?thesis by simp
qed

text \<open>
  \<^verbatim>\<open>{ ...section, sections: children }\<close> keeps the properties of the section in their
  order and sets \<^verbatim>\<open>sections\<close>, in its place where the section has the property, at the
  end otherwise. A section is an object; the type admits no other value, for which the
  model returns the value for the empty query and nothing otherwise.
\<close>

function filterSection :: "json \<Rightarrow> string \<Rightarrow> json option" where
  "filterSection section q =
     (if q = [] then Some section
      else
        (case section of
           JObject props \<Rightarrow>
             (let selfMatches = sectionMatchesQuery section q;
                  children = filterBoolean (map (\<lambda>s. filterSection s q) (childSections props))
              in if selfMatches \<or> length children > 0
                 then Some (JObject (mapSet props ''sections'' (JArray children)))
                 else None)
         | _ \<Rightarrow> None))"
  by pat_completeness auto
termination
  by (relation "measure (\<lambda>(section, q). size section)") (auto simp: size_childSections)

declare filterSection.simps [simp del]
declare countLoop.simps [code]

subsection \<open>Facts about \<^verbatim>\<open>indexOf\<close> and \<^verbatim>\<open>includes\<close>\<close>

lemma indexOf_Some:
  "indexOf hay q idx = Some hit \<Longrightarrow> idx \<le> hit \<and> occursAt hay q hit"
proof (induction hay q idx rule: indexOf.induct)
  case (1 hay q idx)
  then show ?case
    by (subst (asm) (2) indexOf.simps) (auto split: if_splits intro: Suc_leD)
qed

lemma indexOf_None:
  "indexOf hay q idx = None \<Longrightarrow> idx \<le> i \<Longrightarrow> \<not> occursAt hay q i"
proof (induction hay q idx rule: indexOf.induct)
  case (1 hay q idx)
  show ?case
  proof (cases "length hay < idx + length q")
    case True
    with 1(3) show ?thesis by (simp add: occursAt_def)
  next
    case False
    with 1(2) have no: "\<not> occursAt hay q idx" and rec: "indexOf hay q (idx + 1) = None"
      by (subst (asm) indexOf.simps, simp split: if_splits)+
    show ?thesis
    proof (cases "i = idx")
      case True
      with no show ?thesis by simp
    next
      case False
      with 1(3) have "idx + 1 \<le> i" by simp
      with 1(1) [OF \<open>\<not> length hay < idx + length q\<close> no rec] show ?thesis .
    qed
  qed
qed

lemma indexOf_least:
  "indexOf hay q idx = Some hit \<Longrightarrow> idx \<le> j \<Longrightarrow> j < hit \<Longrightarrow> \<not> occursAt hay q j"
proof (induction hay q idx rule: indexOf.induct)
  case (1 hay q idx)
  from 1(2,4) 1(3) have ne: "\<not> occursAt hay q idx" and le: "\<not> length hay < idx + length q"
    and rec: "indexOf hay q (idx + 1) = Some hit"
    by (subst (asm) indexOf.simps, auto split: if_splits)+
  show ?case
  proof (cases "j = idx")
    case True
    with ne show ?thesis by simp
  next
    case False
    with 1(3) have "idx + 1 \<le> j" by simp
    from 1(1) [OF le ne rec this 1(4)] show ?thesis .
  qed
qed

lemma occursAt_iff: "occursAt hay q i \<longleftrightarrow> (\<exists>ps ss. hay = ps @ q @ ss \<and> length ps = i)"
proof
  assume a: "occursAt hay q i"
  then have "hay = take i hay @ q @ drop (length q) (drop i hay)"
    by (metis append_take_drop_id occursAt_def)
  moreover have "length (take i hay) = i"
    using a by (simp add: occursAt_def)
  ultimately show "\<exists>ps ss. hay = ps @ q @ ss \<and> length ps = i" by blast
next
  assume "\<exists>ps ss. hay = ps @ q @ ss \<and> length ps = i"
  then show "occursAt hay q i" by (auto simp: occursAt_def)
qed

lemma includesStr_sublist: "includesStr hay q \<longleftrightarrow> sublist q hay"
proof
  assume "includesStr hay q"
  then obtain hit where "indexOf hay q 0 = Some hit"
    by (auto simp: includesStr_def)
  then have "occursAt hay q hit" by (simp add: indexOf_Some)
  then show "sublist q hay" by (auto simp: occursAt_iff sublist_def)
next
  assume "sublist q hay"
  then obtain i where "occursAt hay q i"
    by (auto simp: occursAt_iff sublist_def)
  then show "includesStr hay q"
    using indexOf_None [of hay q 0 i] by (auto simp: includesStr_def)
qed

text \<open>For a query that is not empty the counting loop returns.\<close>

lemma countLoop_returns:
  "q \<noteq> [] \<Longrightarrow> \<exists>n. countLoop hay q idx count = Some n"
proof (induction "Suc (length hay) - idx" arbitrary: idx count rule: less_induct)
  case less
  show ?case
  proof (cases "indexOf hay q idx")
    case None
    then show ?thesis by (subst countLoop.simps) simp
  next
    case (Some hit)
    then have "idx \<le> hit" "occursAt hay q hit" by (simp_all add: indexOf_Some)
    with less(2) have "Suc (length hay) - (hit + length q) < Suc (length hay) - idx"
      by (cases q) (auto simp: occursAt_def)
    from less(1) [OF this less(2)] Some show ?thesis
      by (subst countLoop.simps) simp
  qed
qed

lemma countQueryMatches_returns: "\<exists>n. countQueryMatches section q = Some n"
  by (simp add: countQueryMatches_def countLoop_returns)

subsection \<open>The texts of a section, as the specification lists them\<close>

text \<open>The string under a property of an object, and the elements of the array under one.\<close>

definition strProp :: "json \<Rightarrow> string \<Rightarrow> string list" where
  "strProp v k =
     (case v of
        JObject props \<Rightarrow> (case mapGet props k of Some (JString s) \<Rightarrow> [s] | _ \<Rightarrow> [])
      | _ \<Rightarrow> [])"

definition arrProp :: "json \<Rightarrow> string \<Rightarrow> json list" where
  "arrProp v k =
     (case v of
        JObject props \<Rightarrow> (case mapGet props k of Some (JArray l) \<Rightarrow> l | _ \<Rightarrow> [])
      | _ \<Rightarrow> [])"

definition elements :: "json \<Rightarrow> json list" where
  "elements v = (case v of JArray l \<Rightarrow> l | _ \<Rightarrow> [])"

text \<open>
  The texts of a content block: the text of a paragraph, the texts of the items of a
  list, the texts of the cells of a table.
\<close>

definition blockTexts :: "json \<Rightarrow> string list" where
  "blockTexts b =
     (if strProp b ''type'' = [''paragraph''] then strProp b ''text''
      else if strProp b ''type'' = [''list'']
        then concat (map (\<lambda>item. strProp item ''text'') (arrProp b ''items''))
      else if strProp b ''type'' = [''table'']
        then concat (map (\<lambda>row. concat (map (\<lambda>cell. strProp cell ''text'') (elements row)))
                       (arrProp b ''rows''))
      else [])"

lemma size_arrProp: "x \<in> set (arrProp v k) \<Longrightarrow> size x < size v"
proof -
  assume a: "x \<in> set (arrProp v k)"
  then obtain props where v: "v = JObject props"
    by (cases v) (auto simp: arrProp_def)
  with a have "\<exists>l. map_of props k = Some (JArray l) \<and> x \<in> set l"
    by (cases "map_of props k") (auto simp: arrProp_def mapGet_def split: json.splits)
  then obtain l where l: "map_of props k = Some (JArray l)" "x \<in> set l"
    by blast
  then have "(k, JArray l) \<in> set props" by (simp add: map_of_SomeD)
  from size_property [OF this] size_element [OF l(2)] show ?thesis by (simp add: v)
qed

text \<open>
  The title and the content-block texts of a section and of all its descendants.
\<close>

function sectionTexts :: "json \<Rightarrow> string list" where
  "sectionTexts s =
     strProp s ''title''
       @ concat (map blockTexts (arrProp s ''content''))
       @ concat (map sectionTexts (arrProp s ''sections''))"
  by pat_completeness auto
termination
  by (relation "measure size") (auto simp: size_arrProp)

declare sectionTexts.simps [simp del]

text \<open>The claim's reading of a self-match: the query occurs in one of these texts.\<close>

definition textsMatchQuery :: "json \<Rightarrow> string \<Rightarrow> bool" where
  "textsMatchQuery section q = list_ex (\<lambda>t. includesStr (toLowerCase t) q) (sectionTexts section)"

text \<open>The names of the properties of an object.\<close>

definition propertyNames :: "json \<Rightarrow> string list" where
  "propertyNames v = (case v of JObject props \<Rightarrow> map fst props | _ \<Rightarrow> [])"

subsection \<open>What the serialization holds\<close>

lemma sublist_trans: "sublist xs ys \<Longrightarrow> sublist ys zs \<Longrightarrow> sublist xs zs"
  by (rule sublist_order.order_trans)

lemma sublist_joinWith: "x \<in> set xs \<Longrightarrow> sublist x (joinWith sep xs)"
proof (induction sep xs rule: joinWith.induct)
  case (3 sep x' y ys)
  show ?case
  proof (cases "x = x'")
    case True
    then show ?thesis by (simp add: sublist_append_rightI)
  next
    case False
    with 3 have "sublist x (joinWith sep (y # ys))" by simp
    then obtain ps ss where "joinWith sep (y # ys) = ps @ x @ ss"
      by (auto simp: sublist_def)
    then have "joinWith sep (x' # y # ys) = (x' @ sep @ ps) @ x @ ss"
      by simp
    then show ?thesis
      unfolding sublist_def by blast
  qed
qed auto

lemma sublist_jsonArray: "x \<in> set xs \<Longrightarrow> sublist x (jsonArray xs)"
  unfolding jsonArray_def
  by (meson sublist_joinWith sublist_append_leftI sublist_append_rightI sublist_trans)

lemma sublist_jsonObject: "p \<in> set props \<Longrightarrow> sublist p (jsonObject props)"
  unfolding jsonObject_def
  by (meson sublist_joinWith sublist_append_leftI sublist_append_rightI sublist_trans)

lemma sublist_jsonProp_value: "sublist v (jsonProp k v)"
  unfolding sublist_def jsonProp_def
  by (rule exI [of _ "quoteJSON k @ '':''"], rule exI [of _ "[]"]) simp

lemma sublist_jsonProp_name: "sublist (escapeJSON k) (jsonProp k v)"
  unfolding sublist_def jsonProp_def quoteJSON_def
  by (rule exI [of _ "[dquote]"], rule exI [of _ "[dquote] @ '':'' @ v"]) simp

lemma sublist_quoteJSON: "sublist (escapeJSON t) (quoteJSON t)"
  unfolding quoteJSON_def sublist_def
  by (rule exI [of _ "[dquote]"], rule exI [of _ "[dquote]"]) simp

lemma sublist_property:
  assumes "(k, v) \<in> set props"
  shows "sublist (stringify v) (stringify (JObject props))"
    and "sublist (escapeJSON k) (stringify (JObject props))"
proof -
  have "jsonProp k (stringify v) \<in> set (map (\<lambda>(k, v). jsonProp k (stringify v)) props)"
    using assms by force
  then have p: "sublist (jsonProp k (stringify v)) (stringify (JObject props))"
    by (simp add: sublist_jsonObject)
  from sublist_trans [OF sublist_jsonProp_value p]
  show "sublist (stringify v) (stringify (JObject props))" .
  from sublist_trans [OF sublist_jsonProp_name p]
  show "sublist (escapeJSON k) (stringify (JObject props))" .
qed

lemma sublist_element: "x \<in> set l \<Longrightarrow> sublist (stringify x) (stringify (JArray l))"
  by (simp add: sublist_jsonArray)

lemma sublist_strProp: "t \<in> set (strProp v k) \<Longrightarrow> sublist (escapeJSON t) (stringify v)"
proof -
  assume a: "t \<in> set (strProp v k)"
  then obtain props where v: "v = JObject props"
    by (cases v) (auto simp: strProp_def)
  with a have "map_of props k = Some (JString t)"
    by (cases "map_of props k") (auto simp: strProp_def mapGet_def split: json.splits)
  then have "(k, JString t) \<in> set props" by (simp add: map_of_SomeD)
  from sublist_property(1) [OF this] have "sublist (quoteJSON t) (stringify v)"
    by (simp add: v)
  with sublist_quoteJSON show ?thesis by (rule sublist_trans)
qed

lemma sublist_arrProp: "x \<in> set (arrProp v k) \<Longrightarrow> sublist (stringify x) (stringify v)"
proof -
  assume a: "x \<in> set (arrProp v k)"
  then obtain props where v: "v = JObject props"
    by (cases v) (auto simp: arrProp_def)
  with a have "\<exists>l. map_of props k = Some (JArray l) \<and> x \<in> set l"
    by (cases "map_of props k") (auto simp: arrProp_def mapGet_def split: json.splits)
  then obtain l where l: "map_of props k = Some (JArray l)" "x \<in> set l"
    by blast
  then have "(k, JArray l) \<in> set props" by (simp add: map_of_SomeD)
  from sublist_property(1) [OF this] have "sublist (stringify (JArray l)) (stringify v)"
    by (simp add: v)
  with sublist_element [OF l(2)] show ?thesis by (rule sublist_trans)
qed

lemma sublist_elements: "x \<in> set (elements v) \<Longrightarrow> sublist (stringify x) (stringify v)"
  by (cases v) (auto simp: elements_def sublist_jsonArray)

lemma sublist_blockTexts: "t \<in> set (blockTexts b) \<Longrightarrow> sublist (escapeJSON t) (stringify b)"
proof -
  assume a: "t \<in> set (blockTexts b)"
  then consider
      (ptext) "t \<in> set (strProp b ''text'')"
    | (item) item where "item \<in> set (arrProp b ''items'')" "t \<in> set (strProp item ''text'')"
    | (cell) row cell where "row \<in> set (arrProp b ''rows'')" "cell \<in> set (elements row)"
        "t \<in> set (strProp cell ''text'')"
    by (auto simp: blockTexts_def split: if_splits)
  then show ?thesis
  proof cases
    case ptext
    then show ?thesis by (rule sublist_strProp)
  next
    case item
    from sublist_trans [OF sublist_strProp [OF item(2)] sublist_arrProp [OF item(1)]]
    show ?thesis .
  next
    case cell
    from sublist_trans [OF sublist_strProp [OF cell(3)]
        sublist_trans [OF sublist_elements [OF cell(2)] sublist_arrProp [OF cell(1)]]]
    show ?thesis .
  qed
qed

lemma sublist_sectionTexts:
  "t \<in> set (sectionTexts s) \<Longrightarrow> sublist (escapeJSON t) (stringify s)"
proof (induction s arbitrary: t rule: sectionTexts.induct)
  case (1 s)
  from 1(2) consider
      (title) "t \<in> set (strProp s ''title'')"
    | (block) b where "b \<in> set (arrProp s ''content'')" "t \<in> set (blockTexts b)"
    | (child) c where "c \<in> set (arrProp s ''sections'')" "t \<in> set (sectionTexts c)"
    by (subst (asm) sectionTexts.simps) auto
  then show ?case
  proof cases
    case title
    then show ?thesis by (rule sublist_strProp)
  next
    case block
    from sublist_trans [OF sublist_blockTexts [OF block(2)] sublist_arrProp [OF block(1)]]
    show ?thesis .
  next
    case child
    from sublist_trans [OF 1(1) [OF child(1) child(2)] sublist_arrProp [OF child(1)]]
    show ?thesis .
  qed
qed

lemma sublist_propertyNames:
  "k \<in> set (propertyNames s) \<Longrightarrow> sublist (escapeJSON k) (stringify s)"
proof -
  assume a: "k \<in> set (propertyNames s)"
  then obtain props where s: "s = JObject props"
    by (cases s) (auto simp: propertyNames_def)
  with a obtain v where "(k, v) \<in> set props"
    by (auto simp: propertyNames_def)
  from sublist_property(2) [OF this] show ?thesis by (simp add: s)
qed

lemma sublist_map: "sublist xs ys \<Longrightarrow> sublist (map g xs) (map g ys)"
proof -
  assume "sublist xs ys"
  then obtain ps ss where "ys = ps @ xs @ ss"
    by (auto simp: sublist_def)
  then have "map g ys = map g ps @ map g xs @ map g ss" by simp
  then show ?thesis unfolding sublist_def by blast
qed

lemmas string_eval =
  toLowerCase_def toLowerChar_def toUpperChar_def hasLower_def hasUpper_def isUpperAZ_def
  isLowerAZ_def isDigit_def isAlnum_def isLowerAlnum_def isWordChar_def isWhitespace_def
  isLineTerminator_def trim_def code_def

lemmas json_eval =
  jsonObject_def jsonProp_def jsonArray_def quoteJSON_def escapeJSON_def escapeJSONChar_def
  dquote_def backslash_def hexDigit_def showBool_def strProp_def arrProp_def elements_def
  blockTexts_def propertyNames_def mapGet_def sectionTexts.simps

text \<open>
  C2, as amended. For a query that is not empty, a section self-matches exactly when the
  query occurs in the lower-cased JSON serialization of the section object, its
  properties written in the order the object holds them. Each title and each
  content-block text of the section and of its descendants is part of that serialization
  in its JSON-escaped form, so a query occurring there self-matches. The converse does
  not hold: the names of the properties are part of the serialization as well, so a query
  occurring in one of them self-matches too, as does one occurring in the type tags,
  slugs, levels and punctuation.
\<close>

theorem sectionMatchesQuery_serialized:
  assumes "q \<noteq> []"
  shows "(sectionMatchesQuery section q \<longleftrightarrow> sublist q (toLowerCase (stringify section)))
    \<and> (\<forall>t \<in> set (sectionTexts section).
          sublist q (toLowerCase (escapeJSON t)) \<longrightarrow> sectionMatchesQuery section q)
    \<and> (\<forall>k \<in> set (propertyNames section).
          sublist q (toLowerCase (escapeJSON k)) \<longrightarrow> sectionMatchesQuery section q)"
proof -
  have iff: "sectionMatchesQuery section q \<longleftrightarrow> sublist q (toLowerCase (stringify section))"
    using assms by (simp add: sectionMatchesQuery_def includesStr_sublist)
  have part: "sectionMatchesQuery section q"
    if p: "sublist x (stringify section)" and q: "sublist q (toLowerCase x)" for x
  proof -
    have "sublist (toLowerCase x) (toLowerCase (stringify section))"
      unfolding toLowerCase_def using p by (rule sublist_map)
    with q have "sublist q (toLowerCase (stringify section))"
      by (rule sublist_trans)
    with iff show ?thesis by simp
  qed
  have "sectionMatchesQuery section q"
    if "t \<in> set (sectionTexts section)" "sublist q (toLowerCase (escapeJSON t))" for t
    using part [OF sublist_sectionTexts [OF that(1)] that(2)] .
  moreover have "sectionMatchesQuery section q"
    if "k \<in> set (propertyNames section)" "sublist q (toLowerCase (escapeJSON k))" for k
    using part [OF sublist_propertyNames [OF that(1)] that(2)] .
  ultimately show ?thesis using iff by blast
qed

theorem sectionMatchesQuery_serialized_witness:
  "''ice'' \<noteq> [] \<and>
   sectionMatchesQuery
     (JObject [(''slug'', JString ''fire''), (''title'', JString ''Fire''),
               (''content'', JArray [JObject [(''text'', JString ''Burns''),
                                              (''type'', JString ''paragraph'')]]),
               (''sections'', JArray [JObject [(''title'', JString ''Ice'')]])]) ''ice''"
proof -
  let ?s = "JObject [(''slug'', JString ''fire''), (''title'', JString ''Fire''),
               (''content'', JArray [JObject [(''text'', JString ''Burns''),
                                              (''type'', JString ''paragraph'')]]),
               (''sections'', JArray [JObject [(''title'', JString ''Ice'')]])]"
  have q: "''ice'' \<noteq> []" by simp
  have "sectionTexts ?s = [''Fire'', ''Burns'', ''Ice'']"
    by (simp add: json_eval)
  then have "''Ice'' \<in> set (sectionTexts ?s)" by simp
  moreover have "sublist ''ice'' (toLowerCase (escapeJSON ''Ice''))"
    by (simp add: string_eval json_eval)
  ultimately have "sectionMatchesQuery ?s ''ice''"
    using sectionMatchesQuery_serialized [OF q, of ?s] by blast
  with q show ?thesis by blast
qed

text \<open>
  The claim as stated fails: the query \<open>title\<close> occurs in no text of the section
  titled \<open>Fire\<close>, and the section self-matches, through the property name.
\<close>

theorem sectionMatchesQuery_property_name_counterexample:
  "sectionMatchesQuery (JObject [(''title'', JString ''Fire'')]) ''title''
   \<and> \<not> textsMatchQuery (JObject [(''title'', JString ''Fire'')]) ''title''"
  by (simp add: sectionMatchesQuery_def textsMatchQuery_def includesStr_def indexOf.simps
      occursAt_def string_eval json_eval)

text \<open>
  The order of the properties counts: a query that runs from the value of one property
  into the name of the next matches the object that holds them in that order only.
\<close>

lemma sectionMatchesQuery_property_order:
  "sectionMatchesQuery (JObject [(''slug'', JString ''x''), (''title'', JString ''Fire'')])
     ([CHR ''x'', dquote, CHR '','', dquote] @ ''title'')
   \<and> \<not> sectionMatchesQuery (JObject [(''title'', JString ''Fire''), (''slug'', JString ''x'')])
     ([CHR ''x'', dquote, CHR '','', dquote] @ ''title'')"
  by (simp add: sectionMatchesQuery_def includesStr_def indexOf.simps
      occursAt_def string_eval json_eval)

text \<open>
  C10. For the empty query the count of matches is 0, while the filter keeps every
  section unchanged and every section self-matches.
\<close>

theorem countQueryMatches_empty_query:
  "countQueryMatches section [] = Some 0
   \<and> filterSection section [] = Some section
   \<and> sectionMatchesQuery section []"
  by (simp add: countQueryMatches_def sectionMatchesQuery_def filterSection.simps)

section \<open>Keyword matcher (weaponKeywords.ts)\<close>

text \<open>
  The table \<^verbatim>\<open>WEAPON_KEYWORDS\<close> of \<^verbatim>\<open>data/weaponKeywords\<close> is a parameter: a list of
  definitions, each a name and a description.
\<close>

record WeaponKeyword =
  kw_name :: string
  kw_description :: string

record WeaponKeywordMatch =
  label :: string
  description :: string
  anchor :: string

definition KEYWORD_ANCHOR :: string where
  "KEYWORD_ANCHOR = ''weapon-keywords''"

text \<open>
  \<^verbatim>\<open>s.replace(/[...]+/g, r)\<close> for a character class: every maximal run of characters
  of the class becomes one \<open>r\<close>.
\<close>

function replaceRuns :: "(char \<Rightarrow> bool) \<Rightarrow> string \<Rightarrow> string \<Rightarrow> string" where
  "replaceRuns P r [] = []"
| "replaceRuns P r (c # cs) =
     (if P c then r @ replaceRuns P r (dropWhile P cs) else c # replaceRuns P r cs)"
  by pat_completeness auto
termination
  by (relation "measure (\<lambda>(P, r, s). length s)")
    (auto simp: length_dropWhile_le less_Suc_eq_le)

text \<open>\<^verbatim>\<open>s.replace(/^-+|-+$/g, "")\<close>: the hyphens at both ends go.\<close>

definition stripHyphens :: "string \<Rightarrow> string" where
  "stripHyphens s =
     rev (dropWhile (\<lambda>c. c = CHR ''-'') (rev (dropWhile (\<lambda>c. c = CHR ''-'') s)))"

definition slugify :: "string \<Rightarrow> string" where
  "slugify v = stripHyphens (replaceRuns (\<lambda>c. \<not> isLowerAlnum c) ''-'' (toLowerCase v))"

text \<open>
  The regular expressions \<^verbatim>\<open>buildMatcher\<close> compiles have three shapes. The name is
  escaped by \<^verbatim>\<open>escapeRegExp\<close>, so that each of its characters matches itself; the first
  \<^verbatim>\<open>(X)\<close>, or else the first space followed by \<^verbatim>\<open>X\<close>, is replaced by a group:
  \<^item> \<open>RxLiteral l\<close> is \<^verbatim>\<open>^l$\<close>;
  \<^item> \<open>RxParen pre suf\<close> is \<^verbatim>\<open>^pre\((.+)\)suf$\<close>;
  \<^item> \<open>RxSpace pre suf\<close> is \<^verbatim>\<open>^pre\s+(.+)suf$\<close>;
  all with the flag \<^verbatim>\<open>i\<close>.
\<close>

datatype KeywordRegex =
    RxLiteral string
  | RxParen string string
  | RxSpace string string

record KeywordMatcher =
  m_name :: string
  m_description :: string
  regex :: KeywordRegex
  hasParam :: bool

text \<open>\<open>splitFirst pat s\<close>: what is before and after the first occurrence of \<open>pat\<close> in \<open>s\<close>.\<close>

definition splitFirst :: "string \<Rightarrow> string \<Rightarrow> (string \<times> string) option" where
  "splitFirst pat s =
     (case indexOf s pat 0 of
        None \<Rightarrow> None
      | Some i \<Rightarrow> Some (take i s, drop (i + length pat) s))"

definition buildMatcher :: "string \<Rightarrow> KeywordRegex \<times> bool" where
  "buildMatcher defName =
     (let trimmed = trim defName in
      if includesStr trimmed ''(X)'' then
        (case splitFirst ''(X)'' trimmed of
           Some (pre, suf) \<Rightarrow> (RxParen pre suf, True)
         | None \<Rightarrow> (RxLiteral trimmed, True))
      else if includesStr trimmed '' X'' then
        (case splitFirst '' X'' trimmed of
           Some (pre, suf) \<Rightarrow> (RxSpace pre suf, True)
         | None \<Rightarrow> (RxLiteral trimmed, True))
      else (RxLiteral trimmed, False))"

definition KEYWORD_MATCHERS :: "WeaponKeyword list \<Rightarrow> KeywordMatcher list" where
  "KEYWORD_MATCHERS WEAPON_KEYWORDS =
     map (\<lambda>k. case buildMatcher (kw_name k) of
                 (rx, hp) \<Rightarrow> \<lparr>m_name = kw_name k, m_description = kw_description k,
                                  regex = rx, hasParam = hp\<rparr>)
       WEAPON_KEYWORDS"

subsection \<open>Matching\<close>

text \<open>Two strings of literal pattern characters under the flag \<^verbatim>\<open>i\<close>.\<close>

definition eqIgnoreCase :: "string \<Rightarrow> string \<Rightarrow> bool" where
  "eqIgnoreCase a b = (map toUpperChar a = map toUpperChar b)"

text \<open>\<^verbatim>\<open>.+\<close>: one character or more, none of them a line terminator.\<close>

definition dotPlus :: "string \<Rightarrow> bool" where
  "dotPlus p = (p \<noteq> [] \<and> list_all (\<lambda>c. \<not> isLineTerminator c) p)"

text \<open>
  \<^verbatim>\<open>text.match(regex)\<close>: \<open>None\<close> is \<^verbatim>\<open>null\<close>, \<open>Some g\<close> a match whose group 1 is
  \<open>g\<close> (\<open>None\<close> where the expression has no group). The expressions are anchored at both
  ends and their literal parts have a fixed length, so the text between prefix and suffix
  is determined. In \<open>RxSpace\<close> the greedy \<^verbatim>\<open>\s+\<close> takes the longest run of white space
  that leaves a character to the group; a shorter run would leave the group a longer
  text, with the same line terminators, so no other split is tried with success.
\<close>

definition rxMatch :: "KeywordRegex \<Rightarrow> string \<Rightarrow> string option option" where
  "rxMatch rx s =
     (case rx of
        RxLiteral l \<Rightarrow> if eqIgnoreCase l s then Some None else None
      | RxParen pre suf \<Rightarrow>
          (let n = length s; lp = length pre; ls = length suf in
           if n < lp + ls + 3 then None
           else
             (let p = take (n - lp - ls - 2) (drop (lp + 1) s) in
              if eqIgnoreCase pre (take lp s) \<and> s ! lp = CHR ''(''
                 \<and> dotPlus p
                 \<and> s ! (n - ls - 1) = CHR '')'' \<and> eqIgnoreCase suf (drop (n - ls) s)
              then Some (Some p) else None))
      | RxSpace pre suf \<Rightarrow>
          (let n = length s; lp = length pre; ls = length suf in
           if n < lp + ls + 2 then None
           else
             (let mid = take (n - lp - ls) (drop lp s);
                  k = min (length (takeWhile isWhitespace mid)) (length mid - 1);
                  p = drop k mid in
              if eqIgnoreCase pre (take lp s) \<and> 1 \<le> k \<and> dotPlus p
                 \<and> eqIgnoreCase suf (drop (n - ls) s)
              then Some (Some p) else None)))"

subsection \<open>Substituting the parameter\<close>

text \<open>
  \<^verbatim>\<open>GetSubstitution\<close> for a match without groups: in the replacement text
  \<^verbatim>\<open>$$\<close> is a dollar sign, \<^verbatim>\<open>$&\<close> the matched text, \<^verbatim>\<open>$`\<close> what is before the
  match and \<^verbatim>\<open>$'\<close> what is after it; every other character stands for itself.
\<close>

fun getSubstitution :: "string \<Rightarrow> string \<Rightarrow> string \<Rightarrow> string \<Rightarrow> string" where
  "getSubstitution matched preceding following [] = []"
| "getSubstitution matched preceding following [c] = [c]"
| "getSubstitution matched preceding following (c # d # r) =
     (if c = CHR ''$'' \<and> d = CHR ''$'' then CHR ''$'' # getSubstitution matched preceding following r
      else if c = CHR ''$'' \<and> d = CHR ''&'' then matched @ getSubstitution matched preceding following r
      else if c = CHR ''$'' \<and> d = CHR 0x60 then preceding @ getSubstitution matched preceding following r
      else if c = CHR ''$'' \<and> d = CHR 0x27 then following @ getSubstitution matched preceding following r
      else c # getSubstitution matched preceding following (d # r))"

text \<open>
  \<^verbatim>\<open>description.replace(/\bX\b/g, replacement)\<close>. The scan keeps what is already read
  (\<open>seen\<close>, in reading order) to see the character before an \<^verbatim>\<open>X\<close>.
\<close>

fun replaceWordX :: "string \<Rightarrow> string \<Rightarrow> string \<Rightarrow> string" where
  "replaceWordX replacement seen [] = []"
| "replaceWordX replacement seen (c # cs) =
     (if c = CHR ''X''
         \<and> (seen = [] \<or> \<not> isWordChar (last seen))
         \<and> (cs = [] \<or> \<not> isWordChar (hd cs))
      then getSubstitution ''X'' seen cs replacement @ replaceWordX replacement (seen @ [c]) cs
      else c # replaceWordX replacement (seen @ [c]) cs)"

definition normalizeParam :: "string option \<Rightarrow> string" where
  "normalizeParam param = trim (case param of None \<Rightarrow> [] | Some p \<Rightarrow> p)"

text \<open>The loop over the matchers: the first one that matches decides.\<close>

fun resolveLoop :: "KeywordMatcher list \<Rightarrow> string \<Rightarrow> string \<Rightarrow> WeaponKeywordMatch option" where
  "resolveLoop [] s slug = None"
| "resolveLoop (def # defs) s slug =
     (case rxMatch (regex def) s of
        None \<Rightarrow> resolveLoop defs s slug
      | Some g \<Rightarrow>
          (let param = (if hasParam def then normalizeParam g else []);
               descr = (if hasParam def
                        then replaceWordX (if param \<noteq> [] then param else ''X'') [] (m_description def)
                        else m_description def)
           in Some \<lparr>label = s, description = descr,
                     anchor = (if slug \<noteq> [] then ''weapon-keyword-'' @ slug else KEYWORD_ANCHOR)\<rparr>))"

definition resolveWeaponKeyword :: "WeaponKeyword list \<Rightarrow> string \<Rightarrow> WeaponKeywordMatch option" where
  "resolveWeaponKeyword WEAPON_KEYWORDS keyword =
     (let s = trim keyword in
      if s = [] then None
      else resolveLoop (KEYWORD_MATCHERS WEAPON_KEYWORDS) s (slugify s))"

fun splitOn :: "char \<Rightarrow> string \<Rightarrow> string list" where
  "splitOn sep [] = [[]]"
| "splitOn sep (c # cs) =
     (if c = sep then [] # splitOn sep cs
      else (case splitOn sep cs of p # ps \<Rightarrow> (c # p) # ps | [] \<Rightarrow> [[c]]))"

definition splitKeywordList :: "string \<Rightarrow> string list" where
  "splitKeywordList s = filter (\<lambda>part. part \<noteq> []) (map trim (splitOn CHR '','' s))"

subsection \<open>Properties of the keyword matcher\<close>

lemmas keyword_eval =
  resolveWeaponKeyword_def KEYWORD_MATCHERS_def buildMatcher_def splitFirst_def rxMatch_def
  eqIgnoreCase_def dotPlus_def normalizeParam_def slugify_def stripHyphens_def
  includesStr_def indexOf.simps occursAt_def KEYWORD_ANCHOR_def splitKeywordList_def

text \<open>The substitution as the specification words it: the parameter, as it is, for each whole-word \<open>X\<close>.\<close>

fun substWordX :: "string \<Rightarrow> string \<Rightarrow> string \<Rightarrow> string" where
  "substWordX param seen [] = []"
| "substWordX param seen (c # cs) =
     (if c = CHR ''X''
         \<and> (seen = [] \<or> \<not> isWordChar (last seen))
         \<and> (cs = [] \<or> \<not> isWordChar (hd cs))
      then param @ substWordX param (seen @ [c]) cs
      else c # substWordX param (seen @ [c]) cs)"

lemma getSubstitution_no_dollar:
  "CHR ''$'' \<notin> set r \<Longrightarrow> getSubstitution matched preceding following r = r"
  by (induction matched preceding following r rule: getSubstitution.induct) auto

lemma replaceWordX_no_dollar:
  "CHR ''$'' \<notin> set r \<Longrightarrow> replaceWordX r seen d = substWordX r seen d"
  by (induction d arbitrary: seen) (auto simp: getSubstitution_no_dollar)

text \<open>
  Where the trimmed parameter has no dollar sign, the description returned is the plain
  substitution; a definition without parameter returns its description as it is.
\<close>

lemma resolveLoop_first_match:
  assumes "rxMatch (regex def) s = Some g"
  shows "resolveLoop (def # defs) s slug =
    Some \<lparr>label = s,
      description =
        (if hasParam def
         then replaceWordX (if normalizeParam g \<noteq> [] then normalizeParam g else ''X'') []
                (m_description def)
         else m_description def),
      anchor = (if slug \<noteq> [] then ''weapon-keyword-'' @ slug else KEYWORD_ANCHOR)\<rparr>"
  using assms by (simp add: Let_def)

lemma resolveLoop_no_dollar:
  assumes "rxMatch (regex def) s = Some g" and "hasParam def"
    and "CHR ''$'' \<notin> set (normalizeParam g)"
  shows "map_option description (resolveLoop (def # defs) s slug) =
    Some (substWordX (if normalizeParam g \<noteq> [] then normalizeParam g else ''X'') []
            (m_description def))"
  using assms by (simp add: resolveLoop_first_match replaceWordX_no_dollar)

text \<open>
  C7. With the definition \<^verbatim>\<open>Reach (X)\<close>, described as \<^verbatim>\<open>Strike at range X.\<close>, the
  input \<^verbatim>\<open>Reach ($$)\<close> matches with the parameter \<^verbatim>\<open>$$\<close>; the description
  returned has one dollar sign where the claim has the parameter, since the parameter is
  read as a replacement pattern.
\<close>

theorem resolveWeaponKeyword_dollar_parameter:
  "resolveWeaponKeyword
     [\<lparr>kw_name = ''Reach (X)'', kw_description = ''Strike at range X.''\<rparr>] ''Reach ($$)''
   = Some \<lparr>label = ''Reach ($$)'', description = ''Strike at range $.'',
            anchor = ''weapon-keyword-reach''\<rparr>
   \<and> substWordX ''$$'' [] ''Strike at range X.'' = ''Strike at range $$.''"
  by (simp add: keyword_eval string_eval)

lemma resolveLoop_skip:
  "\<forall>m \<in> set ms. rxMatch (regex m) s = None \<Longrightarrow>
   resolveLoop (ms @ rest) s slug = resolveLoop rest s slug"
  by (induction ms) auto

text \<open>
  C8, as amended. A name without \<^verbatim>\<open>(X)\<close> gets a parameter exactly when its trimmed
  form has a space followed by \<^verbatim>\<open>X\<close> somewhere, whatever follows that \<^verbatim>\<open>X\<close>: the
  first such place becomes \<^verbatim>\<open>\s+(.+)\<close>, between what is before it and what is after
  it. Only a name with neither form compiles to the literal matcher without parameter.
  That matcher matches the trimmed name with no group; and resolving the name returns
  the description of the definition, with no substitution, where the name is not blank
  and no definition earlier in the table matches it.
\<close>

theorem buildMatcher_space_X:
  assumes "\<not> includesStr (trim defName) ''(X)''"
  shows "(snd (buildMatcher defName) \<longleftrightarrow> includesStr (trim defName) '' X'')
    \<and> (includesStr (trim defName) '' X'' \<longrightarrow>
         (\<exists>i. occursAt (trim defName) '' X'' i
            \<and> (\<forall>j<i. \<not> occursAt (trim defName) '' X'' j)
            \<and> buildMatcher defName
                = (RxSpace (take i (trim defName)) (drop (i + 2) (trim defName)), True)))
    \<and> (\<not> includesStr (trim defName) '' X'' \<longrightarrow>
         buildMatcher defName = (RxLiteral (trim defName), False)
         \<and> rxMatch (RxLiteral (trim defName)) (trim defName) = Some None
         \<and> (\<forall>earlier later descr.
               trim defName \<noteq> []
               \<and> (\<forall>d \<in> set earlier.
                     rxMatch (fst (buildMatcher (kw_name d))) (trim defName) = None)
               \<longrightarrow> resolveWeaponKeyword
                     (earlier @ \<lparr>kw_name = defName, kw_description = descr\<rparr> # later) defName
                   = Some \<lparr>label = trim defName, description = descr,
                            anchor = (if slugify (trim defName) \<noteq> []
                                      then ''weapon-keyword-'' @ slugify (trim defName)
                                      else KEYWORD_ANCHOR)\<rparr>))"
proof (cases "includesStr (trim defName) '' X''")
  case True
  then obtain i where i: "indexOf (trim defName) '' X'' 0 = Some i"
    by (auto simp: includesStr_def)
  then have "occursAt (trim defName) '' X'' i" by (simp add: indexOf_Some)
  moreover have "\<forall>j<i. \<not> occursAt (trim defName) '' X'' j"
    using indexOf_least [OF i] by simp
  moreover have "buildMatcher defName
      = (RxSpace (take i (trim defName)) (drop (i + 2) (trim defName)), True)"
    using assms True i by (simp add: buildMatcher_def splitFirst_def Let_def)
  ultimately show ?thesis using True by auto
next
  case False
  have bm: "buildMatcher defName = (RxLiteral (trim defName), False)"
    using assms False by (simp add: buildMatcher_def Let_def)
  have self: "rxMatch (RxLiteral (trim defName)) (trim defName) = Some None"
    by (simp add: rxMatch_def eqIgnoreCase_def)
  have res: "resolveWeaponKeyword
                     (earlier @ \<lparr>kw_name = defName, kw_description = descr\<rparr> # later) defName
                   = Some \<lparr>label = trim defName, description = descr,
                            anchor = (if slugify (trim defName) \<noteq> []
                                      then ''weapon-keyword-'' @ slugify (trim defName)
                                      else KEYWORD_ANCHOR)\<rparr>"
    if ne: "trim defName \<noteq> []"
      and no: "\<forall>d \<in> set earlier. rxMatch (fst (buildMatcher (kw_name d))) (trim defName) = None"
    for earlier later descr
  proof -
    let ?mk = "\<lambda>k. case buildMatcher (kw_name k) of
                 (rx, hp) \<Rightarrow> \<lparr>m_name = kw_name k, m_description = kw_description k,
                                  regex = rx, hasParam = hp\<rparr>"
    have skip: "\<forall>m \<in> set (map ?mk earlier). rxMatch (regex m) (trim defName) = None"
      using no by (auto split: prod.splits)
    have "resolveLoop (map ?mk earlier
              @ ?mk \<lparr>kw_name = defName, kw_description = descr\<rparr> # map ?mk later)
            (trim defName) (slugify (trim defName))
        = resolveLoop (?mk \<lparr>kw_name = defName, kw_description = descr\<rparr> # map ?mk later)
            (trim defName) (slugify (trim defName))"
      using skip by (rule resolveLoop_skip)
    also have "\<dots> = Some \<lparr>label = trim defName, description = descr,
                            anchor = (if slugify (trim defName) \<noteq> []
                                      then ''weapon-keyword-'' @ slugify (trim defName)
                                      else KEYWORD_ANCHOR)\<rparr>"
      by (simp add: bm self)
    finally show ?thesis
      using ne by (simp add: resolveWeaponKeyword_def KEYWORD_MATCHERS_def Let_def)
  qed
  from False bm self res show ?thesis by simp
qed

theorem buildMatcher_space_X_witness:
  "\<not> includesStr (trim ''Silent'') ''(X)''
   \<and> buildMatcher ''Silent'' = (RxLiteral ''Silent'', False)
   \<and> rxMatch (RxLiteral ''Silent'') ''Silent'' = Some None
   \<and> resolveWeaponKeyword
        [\<lparr>kw_name = ''Burst X'', kw_description = ''Fires X shots.''\<rparr>,
         \<lparr>kw_name = ''Silent'', kw_description = ''No X noise.''\<rparr>] ''Silent''
      = Some \<lparr>label = ''Silent'', description = ''No X noise.'',
               anchor = ''weapon-keyword-silent''\<rparr>
   \<and> \<not> includesStr (trim ''Burst X or X'') ''(X)''
   \<and> buildMatcher ''Burst X or X'' = (RxSpace ''Burst'' '' or X'', True)"
proof -
  have a: "\<not> includesStr (trim ''Silent'') ''(X)''" "\<not> includesStr (trim ''Silent'') '' X''"
    and t: "trim ''Silent'' = ''Silent''" and sl: "slugify ''Silent'' = ''silent''"
    by (simp_all add: includesStr_def indexOf.simps occursAt_def slugify_def stripHyphens_def
        string_eval)
  have e: "\<forall>d \<in> set [\<lparr>kw_name = ''Burst X'', kw_description = ''Fires X shots.''\<rparr>].
             rxMatch (fst (buildMatcher (kw_name d))) (trim ''Silent'') = None"
    by (simp add: keyword_eval string_eval)
  have b: "\<not> includesStr (trim ''Burst X or X'') ''(X)''"
    "includesStr (trim ''Burst X or X'') '' X''"
    and tb: "trim ''Burst X or X'' = ''Burst X or X''"
    by (simp_all add: includesStr_def indexOf.simps occursAt_def string_eval)
  note lit = buildMatcher_space_X [OF a(1)]
  from lit a(2) have l1: "buildMatcher ''Silent'' = (RxLiteral ''Silent'', False)"
    "rxMatch (RxLiteral ''Silent'') ''Silent'' = Some None"
    unfolding t by blast+
  from lit a(2) have "\<forall>earlier later descr.
               trim ''Silent'' \<noteq> []
               \<and> (\<forall>d \<in> set earlier.
                     rxMatch (fst (buildMatcher (kw_name d))) (trim ''Silent'') = None)
               \<longrightarrow> resolveWeaponKeyword
                     (earlier @ \<lparr>kw_name = ''Silent'', kw_description = descr\<rparr> # later) ''Silent''
                   = Some \<lparr>label = trim ''Silent'', description = descr,
                            anchor = (if slugify (trim ''Silent'') \<noteq> []
                                      then ''weapon-keyword-'' @ slugify (trim ''Silent'')
                                      else KEYWORD_ANCHOR)\<rparr>"
    by blast
  from this [rule_format, of "[\<lparr>kw_name = ''Burst X'', kw_description = ''Fires X shots.''\<rparr>]"
      "''No X noise.''" "[]"] e
  have l2: "resolveWeaponKeyword
        [\<lparr>kw_name = ''Burst X'', kw_description = ''Fires X shots.''\<rparr>,
         \<lparr>kw_name = ''Silent'', kw_description = ''No X noise.''\<rparr>] ''Silent''
      = Some \<lparr>label = ''Silent'', description = ''No X noise.'',
               anchor = ''weapon-keyword-silent''\<rparr>"
    by (simp add: t sl)
  from buildMatcher_space_X [OF b(1)] b(2) obtain i where
    i: "occursAt (trim ''Burst X or X'') '' X'' i"
      "\<forall>j<i. \<not> occursAt (trim ''Burst X or X'') '' X'' j"
      "buildMatcher ''Burst X or X''
        = (RxSpace (take i (trim ''Burst X or X'')) (drop (i + 2) (trim ''Burst X or X'')), True)"
    by blast
  have five: "occursAt ''Burst X or X'' '' X'' 5"
    by (simp add: occursAt_def)
  have "i = 5"
  proof (rule ccontr)
    assume "i \<noteq> 5"
    then consider "5 < i" | "i < 5" by linarith
    then show False
    proof cases
      case 1
      with i(2) five tb show False by auto
    next
      case 2
      then have "i \<in> {0, 1, 2, 3, 4}" by auto
      with i(1) show False unfolding tb by (auto simp: occursAt_def)
    qed
  qed
  with i(3) have l3: "buildMatcher ''Burst X or X'' = (RxSpace ''Burst'' '' or X'', True)"
    by (simp add: tb)
  from a(1) l1 l2 b(1) l3 show ?thesis by blast
qed

text \<open>
  An earlier definition with a parameter can match the name of a later one, which then
  never resolves to its own description.
\<close>

lemma resolveWeaponKeyword_shadowed:
  "resolveWeaponKeyword
     [\<lparr>kw_name = ''Burst X'', kw_description = ''Fires X shots.''\<rparr>,
      \<lparr>kw_name = ''Burst Fire'', kw_description = ''Automatic.''\<rparr>] ''Burst Fire''
   = Some \<lparr>label = ''Burst Fire'', description = ''Fires Fire shots.'',
            anchor = ''weapon-keyword-burst-fire''\<rparr>"
  by (simp add: keyword_eval string_eval)

text \<open>
  The claim as stated fails at the name \<^verbatim>\<open>Heavy Xtra\<close>: it compiles to a matcher with
  a parameter, and the name itself matches with the group \<^verbatim>\<open>X\<close>.
\<close>

theorem buildMatcher_longer_word_counterexample:
  "buildMatcher ''Heavy Xtra'' = (RxSpace ''Heavy'' ''tra'', True)
   \<and> rxMatch (RxSpace ''Heavy'' ''tra'') ''Heavy Xtra'' = Some (Some ''X'')"
  by (simp add: keyword_eval string_eval)

section \<open>Term index (buildAnchorMaps, buildGlossary)\<close>

subsection \<open>Section identifiers and headings\<close>

definition getSectionId :: "RuleSection \<Rightarrow> string" where
  "getSectionId section =
     (case sec_slug section of
        Some sl \<Rightarrow> if sl \<noteq> [] then sl
                   else replaceRuns isWhitespace ''-'' (toLowerCase (sec_title section))
      | None \<Rightarrow> replaceRuns isWhitespace ''-'' (toLowerCase (sec_title section)))"

fun collectSectionTitles :: "RuleSection \<Rightarrow> RuleSection list \<Rightarrow> nat \<Rightarrow> RuleSection list" where
  "collectSectionTitles (RuleSection t sl lv ct ss f) out depth =
     foldl (\<lambda>out' s. collectSectionTitles s out' (depth + 1))
       (out @ [RuleSection t sl (Some depth) ct ss f])
       (case ss of None \<Rightarrow> [] | Some l \<Rightarrow> l)"

record Candidate =
  cand_id :: string
  cand_docSlug :: string
  cand_depth :: nat

record LinkTerm =
  link_id :: string
  link_docSlug :: string
  sameLevelCount :: nat

definition blacklist :: "string list" where
  "blacklist = [''the'', ''and'', ''or'', ''of'', ''in'', ''to'', ''a'', ''an'']"

text \<open>
  The body of the loop over the collected sections of one document: the heading is
  skipped or added to the candidates of its trimmed title.
\<close>

definition addCandidate ::
  "string \<Rightarrow> (string, Candidate list) jsmap \<Rightarrow> RuleSection \<Rightarrow> (string, Candidate list) jsmap"
where
  "addCandidate docSlug candidates section =
     (let title = trim (sec_title section) in
      if title = [] \<or> length title < 4 then candidates
      else if toLowerCase title \<in> set blacklist then candidates
      else
        (let ident = getSectionId section;
             depth = (case sec_level section of None \<Rightarrow> 0 | Some d \<Rightarrow> d);
             list = (case mapGet candidates title of None \<Rightarrow> [] | Some l \<Rightarrow> l)
         in mapSet candidates title
              (list @ [\<lparr>cand_id = ident, cand_docSlug = docSlug, cand_depth = depth\<rparr>])))"

subsection \<open>Anchors of keyword tables\<close>

definition walkRow :: "string \<Rightarrow> (string, string) jsmap \<Rightarrow> RuleText list \<Rightarrow> (string, string) jsmap" where
  "walkRow docSlug anchorToDoc row =
     (let raw = stripHyphens (replaceRuns (\<lambda>c. \<not> isLowerAlnum c) ''-''
                  (toLowerCase (case row of [] \<Rightarrow> [] | c # cs \<Rightarrow> rtext c)))
      in if raw = [] then anchorToDoc
         else
           (let anchor = ''weapon-keyword-'' @ raw
            in if \<not> mapHas anchorToDoc anchor then mapSet anchorToDoc anchor docSlug
               else anchorToDoc))"

definition isKeywordTable :: "RuleText list \<Rightarrow> bool" where
  "isKeywordTable head =
     (let headerText = map (\<lambda>cell. toLowerCase (rtext cell)) head
      in list_ex (\<lambda>h. includesStr h ''keyword'') headerText \<and> length headerText \<ge> 2)"

definition walkBlock :: "string \<Rightarrow> (string, string) jsmap \<Rightarrow> RuleBlock \<Rightarrow> (string, string) jsmap" where
  "walkBlock docSlug anchorToDoc block =
     (case block of
        Table rws \<Rightarrow>
          (case rws of
             [] \<Rightarrow> anchorToDoc
           | head # body \<Rightarrow>
               if \<not> isKeywordTable head then anchorToDoc
               else foldl (walkRow docSlug) anchorToDoc body)
      | _ \<Rightarrow> anchorToDoc)"

fun walk :: "string \<Rightarrow> RuleSection \<Rightarrow> (string, string) jsmap \<Rightarrow> (string, string) jsmap" where
  "walk docSlug (RuleSection t sl lv ct ss f) anchorToDoc =
     foldl (\<lambda>a s. walk docSlug s a)
       (foldl (walkBlock docSlug) anchorToDoc (case ct of None \<Rightarrow> [] | Some l \<Rightarrow> l))
       (case ss of None \<Rightarrow> [] | Some l \<Rightarrow> l)"

subsection \<open>buildAnchorMaps\<close>

text \<open>The body of the first loop, over the documents.\<close>

definition docStep ::
  "(string, Candidate list) jsmap \<times> (string, string) jsmap \<Rightarrow> RuleSection
   \<Rightarrow> (string, Candidate list) jsmap \<times> (string, string) jsmap"
where
  "docStep st doc =
     (let docSlug = getSectionId doc;
          sections = collectSectionTitles doc [] 0
      in (foldl (addCandidate docSlug) (fst st) sections, walk docSlug doc (snd st)))"

text \<open>\<^verbatim>\<open>Math.min(...xs)\<close>; \<open>None\<close> is \<^verbatim>\<open>Infinity\<close>, the minimum of no numbers.\<close>

fun mathMin :: "nat list \<Rightarrow> nat option" where
  "mathMin [] = None"
| "mathMin (x # xs) = (case mathMin xs of None \<Rightarrow> Some x | Some m \<Rightarrow> Some (min x m))"

text \<open>
  The body of the second loop, over the entries of the candidates. \<open>None\<close> is the
  \<^verbatim>\<open>TypeError\<close> of reading \<^verbatim>\<open>chosen.id\<close> where \<^verbatim>\<open>sameLevel[0]\<close> is undefined.
\<close>

definition linkStep ::
  "((string, LinkTerm) jsmap \<times> (string, string) jsmap) option \<Rightarrow> string \<times> Candidate list
   \<Rightarrow> ((string, LinkTerm) jsmap \<times> (string, string) jsmap) option"
where
  "linkStep st entry =
     (case st of
        None \<Rightarrow> None
      | Some (linkTerms, anchorToDoc) \<Rightarrow>
          (case entry of (title, list) \<Rightarrow>
             if list = [] then Some (linkTerms, anchorToDoc)
             else
               (let minDepth = mathMin (map cand_depth list);
                    sameLevel = filter (\<lambda>c. Some (cand_depth c) = minDepth) list
                in case sameLevel of
                     [] \<Rightarrow> None
                   | chosen # rest \<Rightarrow>
                       Some (mapSet linkTerms title
                               \<lparr>link_id = cand_id chosen, link_docSlug = cand_docSlug chosen,
                                sameLevelCount = length sameLevel\<rparr>,
                             if \<not> mapHas anchorToDoc (cand_id chosen)
                             then mapSet anchorToDoc (cand_id chosen) (cand_docSlug chosen)
                             else anchorToDoc))))"

definition buildAnchorMaps ::
  "RuleSection list \<Rightarrow> ((string, LinkTerm) jsmap \<times> (string, string) jsmap) option" where
  "buildAnchorMaps docs =
     (case foldl docStep ([], []) docs of
        (candidates, anchorToDoc) \<Rightarrow> foldl linkStep (Some ([], anchorToDoc)) candidates)"

subsection \<open>buildGlossary\<close>

text \<open>
  One alternative of the composite expression: the escaped term, with \<^verbatim>\<open>\b\<close> before
  it and after it where it starts and ends with a character of \<^verbatim>\<open>[A-Za-z0-9]\<close>.
\<close>

record TermPattern =
  startsWord :: bool
  pat_term :: string
  endsWord :: bool

text \<open>
  The tables \<^verbatim>\<open>ATTRIBUTE_TOOLTIPS\<close> and \<^verbatim>\<open>SKILL_TOOLTIPS\<close> of \<^verbatim>\<open>data/skillTooltips\<close>
  are parameters, given as the entries \<^verbatim>\<open>Object.entries\<close> lists.
\<close>

definition addTooltip :: "(string, string) jsmap \<Rightarrow> string \<times> string \<Rightarrow> (string, string) jsmap" where
  "addTooltip tooltipTerms entry =
     (case entry of (key, desc) \<Rightarrow>
        if key \<noteq> [] \<and> desc \<noteq> [] then mapSet tooltipTerms key desc else tooltipTerms)"

definition buildTooltipTerms ::
  "(string \<times> string) list \<Rightarrow> (string \<times> string) list \<Rightarrow> WeaponKeyword list
   \<Rightarrow> (string, string) jsmap" where
  "buildTooltipTerms ATTRIBUTE_TOOLTIPS SKILL_TOOLTIPS WEAPON_KEYWORDS =
     foldl (\<lambda>m kw. addTooltip m (kw_name kw, kw_description kw))
       (foldl addTooltip (foldl addTooltip [] ATTRIBUTE_TOOLTIPS) SKILL_TOOLTIPS)
       WEAPON_KEYWORDS"

text \<open>\<^verbatim>\<open>Array.from(new Set(xs))\<close>: the first occurrence of each element, in order.\<close>

definition uniqueInOrder :: "'a list \<Rightarrow> 'a list" where
  "uniqueInOrder xs = foldl (\<lambda>acc x. if x \<in> set acc then acc else acc @ [x]) [] xs"

text \<open>
  \<^verbatim>\<open>.sort((a, b) => b.length - a.length)\<close>: a stable sort, longer terms first. A term
  goes before the first one that is strictly shorter.
\<close>

fun insertByLength :: "string \<Rightarrow> string list \<Rightarrow> string list" where
  "insertByLength t [] = [t]"
| "insertByLength t (u # us) =
     (if length u < length t then t # u # us else u # insertByLength t us)"

definition sortByLengthDesc :: "string list \<Rightarrow> string list" where
  "sortByLengthDesc xs = foldl (\<lambda>acc t. insertByLength t acc) [] xs"

definition termPattern :: "string \<Rightarrow> TermPattern" where
  "termPattern term =
     \<lparr>startsWord = (term \<noteq> [] \<and> isAlnum (hd term)), pat_term = term,
      endsWord = (term \<noteq> [] \<and> isAlnum (last term))\<rparr>"

definition glossaryTerms :: "(string, string) jsmap \<Rightarrow> (string, LinkTerm) jsmap \<Rightarrow> string list" where
  "glossaryTerms tooltips links = sortByLengthDesc (uniqueInOrder (mapKeys tooltips @ mapKeys links))"

record Glossary =
  glossary_regex :: "TermPattern list option"
  linkTerms :: "(string, LinkTerm) jsmap"
  tooltipTerms :: "(string, string) jsmap"
  anchorToDoc :: "(string, string) jsmap"

definition buildGlossary ::
  "(string \<times> string) list \<Rightarrow> (string \<times> string) list \<Rightarrow> WeaponKeyword list
   \<Rightarrow> RuleSection list \<Rightarrow> Glossary option" where
  "buildGlossary ATTRIBUTE_TOOLTIPS SKILL_TOOLTIPS WEAPON_KEYWORDS docs =
     (case buildAnchorMaps docs of
        None \<Rightarrow> None
      | Some (links, anchors) \<Rightarrow>
          (let tooltips = buildTooltipTerms ATTRIBUTE_TOOLTIPS SKILL_TOOLTIPS WEAPON_KEYWORDS;
               terms = glossaryTerms tooltips links
           in if terms = [] then
                Some \<lparr>glossary_regex = None, linkTerms = links, tooltipTerms = tooltips,
                      anchorToDoc = anchors\<rparr>
              else
                Some \<lparr>glossary_regex = Some (map termPattern terms), linkTerms = links,
                      tooltipTerms = tooltips, anchorToDoc = anchors\<rparr>))"

subsection \<open>Facts about the maps\<close>

lemma mapGet_mapSet: "mapGet (mapSet m k v) k' = (if k' = k then Some v else mapGet m k')"
  by (induction m) (auto simp: mapGet_def)

lemma mapGet_Nil: "mapGet [] k = None"
  by (simp add: mapGet_def)

lemma keys_mapSet: "fst ` set (mapSet m k v) = insert k (fst ` set m)"
proof (induction m)
  case Nil
  then show ?case by simp
next
  case (Cons e m)
  then show ?case by (cases e) (auto simp: rev_image_eqI)
qed

lemma distinct_mapSet: "distinct (map fst m) \<Longrightarrow> distinct (map fst (mapSet m k v))"
proof (induction m)
  case Nil
  then show ?case by simp
next
  case (Cons e m)
  then show ?case by (cases e) (auto simp: keys_mapSet)
qed

subsection \<open>The collected headings, in traversal order\<close>

text \<open>
  The sections of a document in the order of the traversal, each with its depth: a
  section, then the subtrees of its children from first to last, one level deeper.
\<close>

fun preorder :: "nat \<Rightarrow> RuleSection \<Rightarrow> RuleSection list" where
  "preorder depth (RuleSection t sl lv ct ss f) =
     RuleSection t sl (Some depth) ct ss f
       # concat (map (preorder (depth + 1)) (case ss of None \<Rightarrow> [] | Some l \<Rightarrow> l))"

lemma collectSectionTitles_preorder:
  "collectSectionTitles s out depth = out @ preorder depth s"
proof (induction s out depth rule: collectSectionTitles.induct)
  case (1 t sl lv ct ss f out depth)
  have "foldl (\<lambda>out' s. collectSectionTitles s out' (depth + 1)) acc l
        = acc @ concat (map (preorder (depth + 1)) l)"
    if "set l \<subseteq> set (case ss of None \<Rightarrow> [] | Some l \<Rightarrow> l)" for l acc
    using that
  proof (induction l arbitrary: acc)
    case Nil
    then show ?case by simp
  next
    case (Cons x xs)
    then show ?case using 1 [of x] by simp
  qed
  then show ?case by simp
qed

text \<open>
  The heading a collected section contributes: none where the trimmed title is shorter
  than 4 characters or a stop word, else the trimmed title with the identifier, the
  document and the depth.
\<close>

definition headingsOf :: "string \<Rightarrow> RuleSection \<Rightarrow> (string \<times> Candidate) list" where
  "headingsOf docSlug section =
     (let title = trim (sec_title section) in
      if length title < 4 \<or> toLowerCase title \<in> set blacklist then []
      else [(title, \<lparr>cand_id = getSectionId section, cand_docSlug = docSlug,
                      cand_depth = (case sec_level section of None \<Rightarrow> 0 | Some d \<Rightarrow> d)\<rparr>)])"

definition collectedHeadings :: "RuleSection list \<Rightarrow> (string \<times> Candidate) list" where
  "collectedHeadings docs =
     concat (map (\<lambda>doc. concat (map (headingsOf (getSectionId doc)) (preorder 0 doc))) docs)"

text \<open>The group of a title: the collected headings with that title, in order.\<close>

definition groupIn :: "(string \<times> Candidate) list \<Rightarrow> string \<Rightarrow> Candidate list" where
  "groupIn hs title = map snd (filter (\<lambda>h. fst h = title) hs)"

definition headingGroup :: "RuleSection list \<Rightarrow> string \<Rightarrow> Candidate list" where
  "headingGroup docs title = groupIn (collectedHeadings docs) title"

definition candsInv :: "(string, Candidate list) jsmap \<Rightarrow> (string \<times> Candidate) list \<Rightarrow> bool" where
  "candsInv m hs \<longleftrightarrow>
     distinct (map fst m) \<and>
     (\<forall>t. mapGet m t = (if groupIn hs t = [] then None else Some (groupIn hs t)))"

lemma groupIn_append: "groupIn (hs @ hs') t = groupIn hs t @ groupIn hs' t"
  by (simp add: groupIn_def)

lemma candsInv_addCandidate:
  assumes "candsInv m hs"
  shows "candsInv (addCandidate d m s) (hs @ headingsOf d s)"
proof (cases "headingsOf d s = []")
  case True
  then have "addCandidate d m s = m"
    by (auto simp: headingsOf_def addCandidate_def Let_def split: if_splits)
  with True assms show ?thesis by simp
next
  case False
  define title where "title = trim (sec_title s)"
  define c where "c = \<lparr>cand_id = getSectionId s, cand_docSlug = d,
     cand_depth = (case sec_level s of None \<Rightarrow> 0 | Some d \<Rightarrow> d)\<rparr>"
  from False have ok: "\<not> length title < 4" "toLowerCase title \<notin> set blacklist"
    and h: "headingsOf d s = [(title, c)]"
    by (auto simp: headingsOf_def Let_def title_def c_def split: if_splits)
  from ok have ne: "title \<noteq> []" by auto
  have add: "addCandidate d m s
      = mapSet m title ((case mapGet m title of None \<Rightarrow> [] | Some l \<Rightarrow> l) @ [c])"
    using ok ne by (simp add: addCandidate_def Let_def title_def c_def)
  have old: "(case mapGet m title of None \<Rightarrow> [] | Some l \<Rightarrow> l) = groupIn hs title"
    using assms by (simp add: candsInv_def)
  show ?thesis
    unfolding candsInv_def add old h
  proof (intro conjI allI)
    show "distinct (map fst (mapSet m title (groupIn hs title @ [c])))"
      using assms by (simp add: candsInv_def distinct_mapSet)
  next
    fix t
    show "mapGet (mapSet m title (groupIn hs title @ [c])) t
        = (if groupIn (hs @ [(title, c)]) t = [] then None
           else Some (groupIn (hs @ [(title, c)]) t))"
      using assms by (auto simp: mapGet_mapSet candsInv_def groupIn_def)
  qed
qed

lemma candsInv_sections:
  "candsInv m hs \<Longrightarrow>
   candsInv (foldl (addCandidate d) m secs) (hs @ concat (map (headingsOf d) secs))"
proof (induction secs arbitrary: m hs)
  case Nil
  then show ?case by simp
next
  case (Cons s secs)
  from Cons.IH [OF candsInv_addCandidate [OF Cons.prems, of d s]]
  show ?case by simp
qed

lemma fst_docStep:
  "fst (docStep st doc)
   = foldl (addCandidate (getSectionId doc)) (fst st) (preorder 0 doc)"
  by (simp add: docStep_def Let_def collectSectionTitles_preorder)

lemma candsInv_docs:
  "candsInv (fst st) hs \<Longrightarrow>
   candsInv (fst (foldl docStep st docs)) (hs @ collectedHeadings docs)"
proof (induction docs arbitrary: st hs)
  case Nil
  then show ?case by (simp add: collectedHeadings_def)
next
  case (Cons doc docs)
  have "candsInv (fst (docStep st doc))
          (hs @ concat (map (headingsOf (getSectionId doc)) (preorder 0 doc)))"
    unfolding fst_docStep using Cons.prems by (rule candsInv_sections)
  from Cons.IH [OF this] show ?case
    by (simp add: collectedHeadings_def)
qed

lemma candsInv_empty: "candsInv [] []"
  by (simp add: candsInv_def groupIn_def mapGet_def)

subsection \<open>Resolving the groups\<close>

lemma mathMin_Min: "ds \<noteq> [] \<Longrightarrow> mathMin ds = Some (Min (set ds))"
proof (induction ds)
  case Nil
  then show ?case by simp
next
  case (Cons d ds)
  then show ?case by (cases ds) (auto simp: min_def Min.insert_not_elem)
qed

text \<open>The link a group resolves to.\<close>

definition tiedAtMin :: "Candidate list \<Rightarrow> Candidate list" where
  "tiedAtMin grp = filter (\<lambda>c. cand_depth c = Min (set (map cand_depth grp))) grp"

definition resolveGroup :: "Candidate list \<Rightarrow> LinkTerm" where
  "resolveGroup grp =
     \<lparr>link_id = cand_id (hd (tiedAtMin grp)), link_docSlug = cand_docSlug (hd (tiedAtMin grp)),
      sameLevelCount = length (tiedAtMin grp)\<rparr>"

lemma tiedAtMin_nonempty: "grp \<noteq> [] \<Longrightarrow> tiedAtMin grp \<noteq> []"
proof -
  assume "grp \<noteq> []"
  then have "Min (set (map cand_depth grp)) \<in> set (map cand_depth grp)"
    by (intro Min_in) auto
  then show ?thesis
    by (auto simp: tiedAtMin_def filter_empty_conv)
qed

lemma linkStep_entry:
  assumes "grp \<noteq> []"
  shows "\<exists>anchors'. linkStep (Some (links, anchors)) (title, grp)
    = Some (mapSet links title (resolveGroup grp), anchors')"
proof -
  have m: "mathMin (map cand_depth grp) = Some (Min (set (map cand_depth grp)))"
    using assms by (simp add: mathMin_Min)
  obtain chosen rest where t: "tiedAtMin grp = chosen # rest"
    using tiedAtMin_nonempty [OF assms] by (cases "tiedAtMin grp") auto
  then have "filter (\<lambda>c. cand_depth c = Min (cand_depth ` set grp)) grp = chosen # rest"
    by (simp add: tiedAtMin_def)
  then show ?thesis
    using assms m t by (simp add: linkStep_def resolveGroup_def)
qed

lemma linkStep_fold:
  assumes "distinct (map fst es)" and "\<forall>e \<in> set es. snd e \<noteq> []"
  shows "\<exists>links' anchors'. foldl linkStep (Some (links, anchors)) es = Some (links', anchors')
    \<and> (\<forall>t. mapGet links' t =
          (case map_of es t of None \<Rightarrow> mapGet links t | Some l \<Rightarrow> Some (resolveGroup l)))"
  using assms
proof (induction es arbitrary: links anchors)
  case Nil
  then show ?case by simp
next
  case (Cons e es)
  obtain title grp where e: "e = (title, grp)" by (cases e)
  with Cons.prems have g: "grp \<noteq> []" by simp
  from linkStep_entry [OF g] obtain a1 where
    s: "linkStep (Some (links, anchors)) (title, grp)
        = Some (mapSet links title (resolveGroup grp), a1)"
    by blast
  from Cons.prems have d: "distinct (map fst es)" "\<forall>e \<in> set es. snd e \<noteq> []"
    and nt: "map_of es title = None"
    by (auto simp: e map_of_eq_None_iff)
  from Cons.IH [OF d, of "mapSet links title (resolveGroup grp)" a1]
  obtain links' anchors' where
    r: "foldl linkStep (Some (mapSet links title (resolveGroup grp), a1)) es
        = Some (links', anchors')"
    and q: "\<And>t. mapGet links' t =
          (case map_of es t of None \<Rightarrow> mapGet (mapSet links title (resolveGroup grp)) t
           | Some l \<Rightarrow> Some (resolveGroup l))"
    by blast
  have "mapGet links' t =
          (case map_of (e # es) t of None \<Rightarrow> mapGet links t | Some l \<Rightarrow> Some (resolveGroup l))"
    for t
    using q [of t] nt by (auto simp: e mapGet_mapSet split: option.splits)
  with r s show ?case by (simp add: e)
qed

lemma buildAnchorMaps_links:
  "\<exists>links anchors. buildAnchorMaps docs = Some (links, anchors)
     \<and> (\<forall>title. mapGet links title =
          (if headingGroup docs title = [] then None
           else Some (resolveGroup (headingGroup docs title))))"
proof -
  obtain cands a0 where f: "foldl docStep ([], []) docs = (cands, a0)"
    by (cases "foldl docStep ([], []) docs")
  have inv: "candsInv cands (collectedHeadings docs)"
    using candsInv_docs [of "([], [])" "[]" docs] f by (simp add: candsInv_empty)
  then have d: "distinct (map fst cands)" by (simp add: candsInv_def)
  have ne: "\<forall>e \<in> set cands. snd e \<noteq> []"
  proof
    fix e assume "e \<in> set cands"
    with d have "mapGet cands (fst e) = Some (snd e)"
      by (simp add: mapGet_def)
    with inv show "snd e \<noteq> []"
      by (auto simp: candsInv_def split: if_splits)
  qed
  from linkStep_fold [OF d ne, of "[]" a0] obtain links anchors where
    r: "foldl linkStep (Some ([], a0)) cands = Some (links, anchors)"
    and q: "\<And>t. mapGet links t =
          (case map_of cands t of None \<Rightarrow> mapGet [] t | Some l \<Rightarrow> Some (resolveGroup l))"
    by blast
  have "mapGet links t =
          (if headingGroup docs t = [] then None else Some (resolveGroup (headingGroup docs t)))"
    for t
    using q [of t] inv
    by (auto simp: candsInv_def headingGroup_def mapGet_def split: option.splits if_splits)
  with r f show ?thesis by (simp add: buildAnchorMaps_def)
qed

lemma find_hd_filter: "filter P xs \<noteq> [] \<Longrightarrow> find P xs = Some (hd (filter P xs))"
  by (induction xs) auto

lemmas glossary_eval =
  buildAnchorMaps_def docStep_def linkStep_def addCandidate_def getSectionId_def blacklist_def
  walkBlock_def walkRow_def isKeywordTable_def mapGet_def mapHas_def mapKeys_def
  headingGroup_def groupIn_def collectedHeadings_def headingsOf_def
  buildGlossary_def buildTooltipTerms_def addTooltip_def glossaryTerms_def uniqueInOrder_def
  sortByLengthDesc_def termPattern_def

text \<open>
  C6, as amended. \<^verbatim>\<open>buildAnchorMaps\<close> returns, and headings are grouped by their
  trimmed title: the group of a title holds the collected headings whose title, with the
  white space at both ends removed, is that title (headings whose trimmed title is
  shorter than 4 characters or a stop word are not collected). For every title the link
  target is this: where the group is empty, none; else, with \<open>m\<close> the least depth in
  the group, the identifier and document of the first heading of the group, in traversal
  order, whose depth is \<open>m\<close>, and as \<open>sameLevelCount\<close> the number of headings of the
  group whose depth is \<open>m\<close>.
\<close>

theorem buildAnchorMaps_link_target:
  "\<exists>links anchors. buildAnchorMaps docs = Some (links, anchors)
     \<and> (\<forall>title.
          (let grp = headingGroup docs title; m = Min (set (map cand_depth grp)) in
           if grp = [] then mapGet links title = None
           else \<exists>chosen. find (\<lambda>c. cand_depth c = m) grp = Some chosen
             \<and> mapGet links title =
                 Some \<lparr>link_id = cand_id chosen, link_docSlug = cand_docSlug chosen,
                       sameLevelCount = length (filter (\<lambda>c. cand_depth c = m) grp)\<rparr>))"
proof -
  from buildAnchorMaps_links [of docs] obtain links anchors where
    r: "buildAnchorMaps docs = Some (links, anchors)"
    and q: "\<And>title. mapGet links title =
          (if headingGroup docs title = [] then None
           else Some (resolveGroup (headingGroup docs title)))"
    by blast
  have "(let grp = headingGroup docs title; m = Min (set (map cand_depth grp)) in
           if grp = [] then mapGet links title = None
           else \<exists>chosen. find (\<lambda>c. cand_depth c = m) grp = Some chosen
             \<and> mapGet links title =
                 Some \<lparr>link_id = cand_id chosen, link_docSlug = cand_docSlug chosen,
                       sameLevelCount = length (filter (\<lambda>c. cand_depth c = m) grp)\<rparr>)"
    for title
  proof (cases "headingGroup docs title = []")
    case True
    with q [of title] show ?thesis by (simp add: Let_def)
  next
    case False
    let ?g = "headingGroup docs title"
    have "find (\<lambda>c. cand_depth c = Min (set (map cand_depth ?g))) ?g = Some (hd (tiedAtMin ?g))"
      using tiedAtMin_nonempty [OF False] unfolding tiedAtMin_def by (rule find_hd_filter)
    with q [of title] False show ?thesis
      by (simp add: Let_def resolveGroup_def tiedAtMin_def)
  qed
  with r show ?thesis by blast
qed

theorem buildAnchorMaps_link_target_witness:
  "(\<exists>links anchors.
      buildAnchorMaps
        [RuleSection ''Doc One'' None None None
           (Some [RuleSection ''Combat'' None None None
                    (Some [RuleSection ''Resistances'' None None None None None]) None]) None,
         RuleSection ''Doc Two'' None None None
           (Some [RuleSection ''Resistances'' None None None None None]) None]
        = Some (links, anchors)
      \<and> mapGet links ''Resistances''
          = Some \<lparr>link_id = ''resistances'', link_docSlug = ''doc-two'', sameLevelCount = 1\<rparr>)
   \<and> (\<exists>links anchors.
      buildAnchorMaps
        [RuleSection ''Doc One'' None None None
           (Some [RuleSection ''Combat'' None None None
                    (Some [RuleSection ''Resistances'' None None None None None]) None]) None,
         RuleSection ''Doc Two'' None None None
           (Some [RuleSection ''Resistances'' None None None None None]) None,
         RuleSection ''Doc Three'' None None None
           (Some [RuleSection ''Resistances'' None None None None None]) None]
        = Some (links, anchors)
      \<and> mapGet links ''Resistances''
          = Some \<lparr>link_id = ''resistances'', link_docSlug = ''doc-two'', sameLevelCount = 2\<rparr>)"
proof -
  let ?one = "RuleSection ''Doc One'' None None None
           (Some [RuleSection ''Combat'' None None None
                    (Some [RuleSection ''Resistances'' None None None None None]) None]) None"
  let ?two = "RuleSection ''Doc Two'' None None None
           (Some [RuleSection ''Resistances'' None None None None None]) None"
  let ?three = "RuleSection ''Doc Three'' None None None
           (Some [RuleSection ''Resistances'' None None None None None]) None"
  have g2: "headingGroup [?one, ?two] ''Resistances''
      = [\<lparr>cand_id = ''resistances'', cand_docSlug = ''doc-one'', cand_depth = 2\<rparr>,
         \<lparr>cand_id = ''resistances'', cand_docSlug = ''doc-two'', cand_depth = 1\<rparr>]"
    by (simp add: glossary_eval string_eval Let_def)
  have g3: "headingGroup [?one, ?two, ?three] ''Resistances''
      = [\<lparr>cand_id = ''resistances'', cand_docSlug = ''doc-one'', cand_depth = 2\<rparr>,
         \<lparr>cand_id = ''resistances'', cand_docSlug = ''doc-two'', cand_depth = 1\<rparr>,
         \<lparr>cand_id = ''resistances'', cand_docSlug = ''doc-three'', cand_depth = 1\<rparr>]"
    by (simp add: glossary_eval string_eval Let_def)
  from buildAnchorMaps_link_target [of "[?one, ?two]"] obtain l2 a2 where
    r2: "buildAnchorMaps [?one, ?two] = Some (l2, a2)"
    and q2: "\<And>title.
          (let grp = headingGroup [?one, ?two] title; m = Min (set (map cand_depth grp)) in
           if grp = [] then mapGet l2 title = None
           else \<exists>chosen. find (\<lambda>c. cand_depth c = m) grp = Some chosen
             \<and> mapGet l2 title =
                 Some \<lparr>link_id = cand_id chosen, link_docSlug = cand_docSlug chosen,
                       sameLevelCount = length (filter (\<lambda>c. cand_depth c = m) grp)\<rparr>)"
    by blast
  have m2: "mapGet l2 ''Resistances''
       = Some \<lparr>link_id = ''resistances'', link_docSlug = ''doc-two'', sameLevelCount = 1\<rparr>"
    using q2 [of "''Resistances''"] unfolding g2 by (simp add: Let_def)
  from buildAnchorMaps_link_target [of "[?one, ?two, ?three]"] obtain l3 a3 where
    r3: "buildAnchorMaps [?one, ?two, ?three] = Some (l3, a3)"
    and q3: "\<And>title.
          (let grp = headingGroup [?one, ?two, ?three] title;
               m = Min (set (map cand_depth grp)) in
           if grp = [] then mapGet l3 title = None
           else \<exists>chosen. find (\<lambda>c. cand_depth c = m) grp = Some chosen
             \<and> mapGet l3 title =
                 Some \<lparr>link_id = cand_id chosen, link_docSlug = cand_docSlug chosen,
                       sameLevelCount = length (filter (\<lambda>c. cand_depth c = m) grp)\<rparr>)"
    by blast
  have m3: "mapGet l3 ''Resistances''
       = Some \<lparr>link_id = ''resistances'', link_docSlug = ''doc-two'', sameLevelCount = 2\<rparr>"
    using q3 [of "''Resistances''"] unfolding g3 by (simp add: Let_def)
  from r2 m2 r3 m3 show ?thesis by blast
qed

text \<open>
  The group of a title as the claim words it: the collected headings whose title text,
  as it is written, is the title.
\<close>

definition exactHeadingGroup :: "RuleSection list \<Rightarrow> string \<Rightarrow> Candidate list" where
  "exactHeadingGroup docs title =
     concat (map (\<lambda>doc.
       concat (map (\<lambda>s. if sec_title s = title then map snd (headingsOf (getSectionId doc) s)
                          else [])
                 (preorder 0 doc))) docs)"

text \<open>
  The claim as stated fails: with \<^verbatim>\<open>Resistances\<close> at depth 2 and the same title
  followed by a space at depth 1, the title \<^verbatim>\<open>Resistances\<close> is linked to the heading
  with the space, which is not in its group of exact title text, and the title with the
  space has no link.
\<close>

theorem buildAnchorMaps_exact_title_counterexample:
  "buildAnchorMaps
     [RuleSection ''Doc One'' None None None
        (Some [RuleSection ''Combat'' None None None
                 (Some [RuleSection ''Resistances'' None None None None None]) None]) None,
      RuleSection ''Doc Two'' None None None
        (Some [RuleSection ''Resistances '' None None None None None]) None]
   = Some ([(''Doc One'', \<lparr>link_id = ''doc-one'', link_docSlug = ''doc-one'', sameLevelCount = 1\<rparr>),
            (''Combat'', \<lparr>link_id = ''combat'', link_docSlug = ''doc-one'', sameLevelCount = 1\<rparr>),
            (''Resistances'',
               \<lparr>link_id = ''resistances-'', link_docSlug = ''doc-two'', sameLevelCount = 1\<rparr>),
            (''Doc Two'', \<lparr>link_id = ''doc-two'', link_docSlug = ''doc-two'', sameLevelCount = 1\<rparr>)],
           [(''doc-one'', ''doc-one''), (''combat'', ''doc-one''),
            (''resistances-'', ''doc-two''), (''doc-two'', ''doc-two'')])
   \<and> exactHeadingGroup
       [RuleSection ''Doc One'' None None None
          (Some [RuleSection ''Combat'' None None None
                   (Some [RuleSection ''Resistances'' None None None None None]) None]) None,
        RuleSection ''Doc Two'' None None None
          (Some [RuleSection ''Resistances '' None None None None None]) None]
       ''Resistances''
     = [\<lparr>cand_id = ''resistances'', cand_docSlug = ''doc-one'', cand_depth = 2\<rparr>]
   \<and> exactHeadingGroup
       [RuleSection ''Doc One'' None None None
          (Some [RuleSection ''Combat'' None None None
                   (Some [RuleSection ''Resistances'' None None None None None]) None]) None,
        RuleSection ''Doc Two'' None None None
          (Some [RuleSection ''Resistances '' None None None None None]) None]
       ''Resistances ''
     = [\<lparr>cand_id = ''resistances-'', cand_docSlug = ''doc-two'', cand_depth = 1\<rparr>]"
  by (simp add: exactHeadingGroup_def glossary_eval string_eval Let_def)

subsection \<open>Tooltip terms\<close>

text \<open>The registrations, in the order the three loops make them.\<close>

definition registrations ::
  "(string \<times> string) list \<Rightarrow> (string \<times> string) list \<Rightarrow> WeaponKeyword list
   \<Rightarrow> (string \<times> string) list" where
  "registrations ATTRIBUTE_TOOLTIPS SKILL_TOOLTIPS WEAPON_KEYWORDS =
     ATTRIBUTE_TOOLTIPS @ SKILL_TOOLTIPS
       @ map (\<lambda>kw. (kw_name kw, kw_description kw)) WEAPON_KEYWORDS"

text \<open>Those for one key that pass the test \<^verbatim>\<open>key && desc\<close>.\<close>

definition registered :: "string \<Rightarrow> (string \<times> string) list \<Rightarrow> (string \<times> string) list" where
  "registered key es = filter (\<lambda>e. fst e = key \<and> fst e \<noteq> [] \<and> snd e \<noteq> []) es"

lemma foldl_addTooltip:
  "mapGet (foldl addTooltip m es) key =
     (case registered key es of [] \<Rightarrow> mapGet m key | e # r \<Rightarrow> Some (snd (last (e # r))))"
proof (induction es arbitrary: m)
  case Nil
  then show ?case by (simp add: registered_def)
next
  case (Cons e es)
  obtain k d where e: "e = (k, d)" by (cases e)
  show ?case
    unfolding foldl_Cons Cons.IH
    by (cases "registered key es")
      (auto simp: e registered_def addTooltip_def mapGet_mapSet)
qed

lemma buildTooltipTerms_foldl:
  "buildTooltipTerms A S K = foldl addTooltip [] (registrations A S K)"
  by (simp add: buildTooltipTerms_def registrations_def foldl_map)

text \<open>
  C4, as amended. Tooltip registration is last-wins: the mapping carries, for a key, the
  description of the last registration of that key, among those with a key and a
  description that are not empty, in the order attributes, skills, weapon keywords; a key
  never so registered is absent.
\<close>

theorem tooltipTerms_last_wins:
  "mapGet (buildTooltipTerms ATTRIBUTE_TOOLTIPS SKILL_TOOLTIPS WEAPON_KEYWORDS) key =
     (case registered key (registrations ATTRIBUTE_TOOLTIPS SKILL_TOOLTIPS WEAPON_KEYWORDS) of
        [] \<Rightarrow> None
      | e # r \<Rightarrow> Some (snd (last (e # r))))"
  by (simp add: buildTooltipTerms_foldl foldl_addTooltip mapGet_Nil split: list.splits)

text \<open>
  The claim as stated fails: a term registered by the attributes and again by the skills
  carries the description of the skills.
\<close>

theorem tooltipTerms_first_wins_counterexample:
  "mapGet (buildTooltipTerms [(''Strength'', ''from attributes'')]
             [(''Strength'', ''from skills'')] []) ''Strength''
   = Some ''from skills''"
  by (simp add: buildTooltipTerms_def addTooltip_def mapGet_def)

section \<open>Text annotator (highlightText, renderGlossaryText, renderKeywordText)\<close>

text \<open>
  What the annotators return, without keys and styles: a string, a \<^verbatim>\<open>mark\<close> element,
  an array of nodes, a \<^verbatim>\<open>span\<close> with a tooltip, a glossary link (identifier, document
  of the navigation, the optional title with the ambiguity hint, content), and the
  \<^verbatim>\<open>span\<close> of a keyword (tooltip, anchor, document of the navigation, content, whether
  the separator follows).
\<close>

datatype Node =
    Text string
  | Mark string
  | Fragment "Node list"
  | TooltipSpan string Node
  | GlossaryLink string string "string option" Node
  | KeywordLink string string "string option" Node bool

definition slice :: "string \<Rightarrow> nat \<Rightarrow> nat \<Rightarrow> string" where
  "slice s a b = take (b - a) (drop a s)"

subsection \<open>Search highlighting\<close>

text \<open>
  The loop \<^verbatim>\<open>while (i < text.length)\<close> of \<^verbatim>\<open>highlightText\<close>; \<open>None\<close> is a loop that
  does not return.
\<close>

partial_function (option) highlightLoop ::
  "string \<Rightarrow> string \<Rightarrow> string \<Rightarrow> string \<Rightarrow> nat \<Rightarrow> Node list \<Rightarrow> Node list option" where
  "highlightLoop txt q lower qLower i parts =
     (if i < length txt then
        (case indexOf lower qLower i of
           None \<Rightarrow> Some (parts @ [Text (drop i txt)])
         | Some hit \<Rightarrow>
             highlightLoop txt q lower qLower (hit + length q)
               (parts @ (if hit > i then [Text (slice txt i hit)] else [])
                      @ [Mark (slice txt hit (hit + length q))]))
      else Some parts)"

declare highlightLoop.simps [code]

definition highlightText :: "string \<Rightarrow> string \<Rightarrow> Node option" where
  "highlightText txt q =
     (if q = [] then Some (Text txt)
      else map_option Fragment (highlightLoop txt q (toLowerCase txt) (toLowerCase q) 0 []))"

subsection \<open>The composite matcher\<close>

text \<open>\<^verbatim>\<open>\b\<close> at position \<open>i\<close>: exactly one of the characters around it is a word character.\<close>

definition isWordAt :: "string \<Rightarrow> nat \<Rightarrow> bool" where
  "isWordAt s i = (i < length s \<and> isWordChar (s ! i))"

definition wordBoundary :: "string \<Rightarrow> nat \<Rightarrow> bool" where
  "wordBoundary s i = ((if i = 0 then False else isWordAt s (i - 1)) \<noteq> isWordAt s i)"

text \<open>One alternative at position \<open>i\<close>: the term itself, case-sensitive, between its boundaries.\<close>

definition termMatchesAt :: "TermPattern \<Rightarrow> string \<Rightarrow> nat \<Rightarrow> bool" where
  "termMatchesAt p s i =
     ((if startsWord p then wordBoundary s i else True)
      \<and> occursAt s (pat_term p) i
      \<and> (if endsWord p then wordBoundary s (i + length (pat_term p)) else True))"

text \<open>The alternation at one position: the first alternative, in order, that matches.\<close>

definition firstAlternative :: "TermPattern list \<Rightarrow> string \<Rightarrow> nat \<Rightarrow> string option" where
  "firstAlternative pats s i = map_option pat_term (find (\<lambda>p. termMatchesAt p s i) pats)"

text \<open>
  \<^verbatim>\<open>regex.exec(raw)\<close> with the flag \<^verbatim>\<open>g\<close>, from \<^verbatim>\<open>lastIndex\<close>: the least position
  from there on at which the alternation matches, with the matched term.
\<close>

function regexExec :: "TermPattern list \<Rightarrow> string \<Rightarrow> nat \<Rightarrow> (nat \<times> string) option" where
  "regexExec pats s i =
     (if length s < i then None
      else (case firstAlternative pats s i of
              Some term \<Rightarrow> Some (i, term)
            | None \<Rightarrow> regexExec pats s (i + 1)))"
  by pat_completeness auto
termination
  by (relation "measure (\<lambda>(pats, s, i). Suc (length s) - i)") auto

declare regexExec.simps [simp del]

subsection \<open>Glossary annotation\<close>

text \<open>The node for a matched term: tooltip first, else link, else the content alone.\<close>

definition termNode :: "Glossary \<Rightarrow> string \<Rightarrow> Node \<Rightarrow> Node" where
  "termNode glossary term content =
     (let tooltip = mapGet (tooltipTerms glossary) term;
          link = mapGet (linkTerms glossary) term
      in case tooltip of
           Some tip \<Rightarrow>
             if tip \<noteq> [] then TooltipSpan tip content
             else (case link of
                     Some l \<Rightarrow> GlossaryLink (link_id l) (link_docSlug l)
                       (if sameLevelCount l > 1
                        then Some (''Multiple sections named '' @ [dquote] @ term @ [dquote]
                                   @ '' at the same level: '' @ showNat (sameLevelCount l))
                        else None) content
                   | None \<Rightarrow> content)
         | None \<Rightarrow>
             (case link of
                Some l \<Rightarrow> GlossaryLink (link_id l) (link_docSlug l)
                  (if sameLevelCount l > 1
                   then Some (''Multiple sections named '' @ [dquote] @ term @ [dquote]
                              @ '' at the same level: '' @ showNat (sameLevelCount l))
                   else None) content
              | None \<Rightarrow> content))"

text \<open>
  The loop \<^verbatim>\<open>while ((match = glossary.regex.exec(raw)) !== null)\<close>. The expression
  keeps its \<^verbatim>\<open>lastIndex\<close> at the end of the last match, which is the variable
  \<^verbatim>\<open>lastIndex\<close> of the function; after the loop it is 0 again.
\<close>

partial_function (option) glossaryLoop ::
  "Glossary \<Rightarrow> TermPattern list \<Rightarrow> string \<Rightarrow> string \<Rightarrow> nat \<Rightarrow> Node list \<Rightarrow> Node list option" where
  "glossaryLoop glossary pats q raw lastIndex nodes =
     (case regexExec pats raw lastIndex of
        None \<Rightarrow>
          (if lastIndex < length raw
           then map_option (\<lambda>h. nodes @ [h]) (highlightText (drop lastIndex raw) q)
           else Some nodes)
      | Some (start, term) \<Rightarrow>
          (case (if start > lastIndex
                 then map_option (\<lambda>h. [h]) (highlightText (slice raw lastIndex start) q)
                 else Some []) of
             None \<Rightarrow> None
           | Some lead \<Rightarrow>
               (case highlightText term q of
                  None \<Rightarrow> None
                | Some content \<Rightarrow>
                    glossaryLoop glossary pats q raw (start + length term)
                      (nodes @ lead @ [termNode glossary term content]))))"

declare glossaryLoop.simps [code]

definition renderGlossaryText :: "string \<Rightarrow> string \<Rightarrow> Glossary \<Rightarrow> Node option" where
  "renderGlossaryText txt q glossary =
     (case glossary_regex glossary of
        None \<Rightarrow> highlightText txt q
      | Some pats \<Rightarrow> map_option Fragment (glossaryLoop glossary pats q txt 0 []))"

subsection \<open>Keyword cells\<close>

text \<open>The elements the final \<^verbatim>\<open>parts.map\<close> makes, from index \<open>idx\<close> on.\<close>

fun keywordNodes ::
  "Glossary \<Rightarrow> string \<Rightarrow> nat \<Rightarrow> nat \<Rightarrow> (string \<times> WeaponKeywordMatch) list \<Rightarrow> Node list option" where
  "keywordNodes glossary q n idx [] = Some []"
| "keywordNodes glossary q n idx ((part, info) # rest) =
     (case highlightText part q of
        None \<Rightarrow> None
      | Some content \<Rightarrow>
          (case keywordNodes glossary q n (idx + 1) rest of
             None \<Rightarrow> None
           | Some nodes \<Rightarrow>
               Some (KeywordLink (description info) (anchor info)
                       (mapGet (anchorToDoc glossary) (anchor info)) content (idx < n - 1)
                     # nodes)))"

definition renderKeywordText ::
  "WeaponKeyword list \<Rightarrow> string \<Rightarrow> string \<Rightarrow> Glossary \<Rightarrow> Node option" where
  "renderKeywordText WEAPON_KEYWORDS txt q glossary =
     (let parts = splitKeywordList txt in
      if parts = [] then highlightText txt q
      else
        (let resolved = map (resolveWeaponKeyword WEAPON_KEYWORDS) parts in
         if list_ex (\<lambda>r. r = None) resolved then highlightText txt q
         else map_option Fragment
                (keywordNodes glossary q (length parts) 0
                   (zip parts (filterBoolean resolved)))))"

subsection \<open>The search highlighter returns, and only highlights\<close>

fun onlyHighlights :: "Node \<Rightarrow> bool" where
  "onlyHighlights (Text t) = True"
| "onlyHighlights (Mark t) = True"
| "onlyHighlights (Fragment ns) = list_all onlyHighlights ns"
| "onlyHighlights (TooltipSpan tip n) = False"
| "onlyHighlights (GlossaryLink i d t n) = False"
| "onlyHighlights (KeywordLink tip a d n sep) = False"

lemma highlightLoop_returns:
  assumes "q \<noteq> []" and "list_all onlyHighlights parts"
  shows "\<exists>ps. highlightLoop txt q lower qLower i parts = Some ps \<and> list_all onlyHighlights ps"
  using assms(2)
proof (induction "length txt - i" arbitrary: i parts rule: less_induct)
  case less
  show ?case
  proof (cases "i < length txt")
    case False
    with less.prems show ?thesis by (subst highlightLoop.simps) simp
  next
    case True
    show ?thesis
    proof (cases "indexOf lower qLower i")
      case None
      with True less.prems show ?thesis by (subst highlightLoop.simps) simp
    next
      case (Some hit)
      then have "i \<le> hit" by (simp add: indexOf_Some)
      with assms(1) True have d: "length txt - (hit + length q) < length txt - i"
        by (cases q) auto
      let ?parts = "parts @ (if hit > i then [Text (slice txt i hit)] else [])
                      @ [Mark (slice txt hit (hit + length q))]"
      have "list_all onlyHighlights ?parts"
        using less.prems by simp
      from less.hyps [OF d this] Some True show ?thesis
        by (subst highlightLoop.simps) simp
    qed
  qed
qed

lemma highlightText_returns: "\<exists>n. highlightText txt q = Some n \<and> onlyHighlights n"
proof (cases "q = []")
  case True
  then show ?thesis by (simp add: highlightText_def)
next
  case False
  from highlightLoop_returns [OF False, of "[]" "txt" "toLowerCase txt" "toLowerCase q" 0]
  show ?thesis using False by (auto simp: highlightText_def)
qed

subsection \<open>The term alternation is sorted\<close>

lemma set_insertByLength: "set (insertByLength t us) = insert t (set us)"
  by (induction us) auto

lemma sorted_insertByLength:
  "sorted_wrt (\<lambda>a b. length b \<le> length a) us \<Longrightarrow>
   sorted_wrt (\<lambda>a b. length b \<le> length a) (insertByLength t us)"
  by (induction us) (auto simp: set_insertByLength)

lemma foldl_insertByLength:
  "sorted_wrt (\<lambda>a b. length b \<le> length a) acc \<Longrightarrow>
   sorted_wrt (\<lambda>a b. length b \<le> length a) (foldl (\<lambda>acc t. insertByLength t acc) acc xs)
   \<and> set (foldl (\<lambda>acc t. insertByLength t acc) acc xs) = set acc \<union> set xs"
  by (induction xs arbitrary: acc) (auto simp: sorted_insertByLength set_insertByLength)

lemma sorted_sortByLengthDesc:
  "sorted_wrt (\<lambda>a b. length b \<le> length a) (sortByLengthDesc xs)"
  using foldl_insertByLength [of "[]" xs] by (simp add: sortByLengthDesc_def)

lemma set_sortByLengthDesc: "set (sortByLengthDesc xs) = set xs"
  using foldl_insertByLength [of "[]" xs] by (simp add: sortByLengthDesc_def)

lemma set_foldl_unique:
  "set (foldl (\<lambda>acc x. if x \<in> set acc then acc else acc @ [x]) acc xs) = set acc \<union> set xs"
  by (induction xs arbitrary: acc) auto

lemma set_uniqueInOrder: "set (uniqueInOrder xs) = set xs"
  by (simp add: uniqueInOrder_def set_foldl_unique)

lemma set_glossaryTerms:
  "set (glossaryTerms tooltips links) = set (mapKeys tooltips @ mapKeys links)"
  by (simp add: glossaryTerms_def set_sortByLengthDesc set_uniqueInOrder)

lemma sorted_glossaryTerms:
  "sorted_wrt (\<lambda>a b. length b \<le> length a) (glossaryTerms tooltips links)"
  by (simp add: glossaryTerms_def sorted_sortByLengthDesc)

lemma find_sorted_wrt:
  "sorted_wrt R xs \<Longrightarrow> find P xs = Some x \<Longrightarrow> y \<in> set xs \<Longrightarrow> P y \<Longrightarrow> y = x \<or> R x y"
  by (induction xs) (auto split: if_splits)

lemma firstAlternative_terms:
  "firstAlternative (map termPattern terms) s i
   = find (\<lambda>t. termMatchesAt (termPattern t) s i) terms"
  by (induction terms) (auto simp: firstAlternative_def termPattern_def)

lemma regexExec_Some:
  "regexExec pats s i = Some (start, term) \<Longrightarrow>
   i \<le> start \<and> firstAlternative pats s start = Some term
   \<and> (\<forall>j. i \<le> j \<and> j < start \<longrightarrow> firstAlternative pats s j = None)"
proof (induction pats s i rule: regexExec.induct)
  case (1 pats s i)
  show ?case
  proof (cases "firstAlternative pats s i")
    case (Some t)
    with 1(2) show ?thesis
      by (subst (asm) regexExec.simps) (auto split: if_splits)
  next
    case None
    with 1(2) have le: "\<not> length s < i" and r: "regexExec pats s (i + 1) = Some (start, term)"
      by (subst (asm) regexExec.simps, simp split: if_splits)+
    from 1(1) [OF le None r] have
      ih: "i + 1 \<le> start" "firstAlternative pats s start = Some term"
        "\<And>j. i + 1 \<le> j \<Longrightarrow> j < start \<Longrightarrow> firstAlternative pats s j = None"
      by auto
    have "firstAlternative pats s j = None" if "i \<le> j" "j < start" for j
      using that None ih(3) [of j] by (cases "j = i") auto
    with ih show ?thesis by auto
  qed
qed

lemma buildGlossary_Some:
  assumes "buildGlossary A S K docs = Some g"
  shows "tooltipTerms g = buildTooltipTerms A S K"
    and "glossary_regex g = Some pats \<Longrightarrow>
         pats = map termPattern (glossaryTerms (tooltipTerms g) (linkTerms g))"
  using assms
  by (auto simp: buildGlossary_def Let_def split: option.splits prod.splits if_splits)

subsection \<open>The annotations of a text\<close>

text \<open>The glossary terms: the keys of the tooltip terms and of the link terms.\<close>

definition glossaryKeys :: "Glossary \<Rightarrow> string list" where
  "glossaryKeys g = mapKeys (tooltipTerms g) @ mapKeys (linkTerms g)"

text \<open>The terms of a list that match at a position.\<close>

definition matchingTerms :: "string list \<Rightarrow> string \<Rightarrow> nat \<Rightarrow> string list" where
  "matchingTerms keys raw i = filter (\<lambda>t. termMatchesAt (termPattern t) raw i) keys"

text \<open>
  \<open>scanOk keys raw e spans\<close>: the spans, each a start and a term, are those of a scan of
  \<open>raw\<close> from position \<open>e\<close> that is leftmost and longest-first. No term matches
  between \<open>e\<close> and the start of the first span; its term matches at its start, and no
  term matching there is longer; the rest is such a scan from the end of the term; and
  after the last span no term matches at any position up to the end of the text.
\<close>

fun scanOk :: "string list \<Rightarrow> string \<Rightarrow> nat \<Rightarrow> (nat \<times> string) list \<Rightarrow> bool" where
  "scanOk keys raw e [] =
     list_all (\<lambda>i. matchingTerms keys raw i = []) [e..<Suc (length raw)]"
| "scanOk keys raw e ((start, term) # rest) =
     (e \<le> start
      \<and> list_all (\<lambda>i. matchingTerms keys raw i = []) [e..<start]
      \<and> term \<in> set (matchingTerms keys raw start)
      \<and> list_all (\<lambda>t. length t \<le> length term) (matchingTerms keys raw start)
      \<and> scanOk keys raw (start + length term) rest)"

text \<open>
  The nodes for given spans, from position \<open>e\<close>: the text before a span goes through
  the search highlighter, the term of the span becomes one node with its tooltip or
  link, and so on after the end of the term; the text after the last span goes through
  the search highlighter.
\<close>

fun spanNodes ::
  "Glossary \<Rightarrow> string \<Rightarrow> string \<Rightarrow> nat \<Rightarrow> (nat \<times> string) list \<Rightarrow> Node list option" where
  "spanNodes g q raw e [] =
     (if e < length raw then map_option (\<lambda>h. [h]) (highlightText (drop e raw) q)
      else Some [])"
| "spanNodes g q raw e ((start, term) # rest) =
     (case (if start > e then map_option (\<lambda>h. [h]) (highlightText (slice raw e start) q)
            else Some []) of
        None \<Rightarrow> None
      | Some lead \<Rightarrow>
          (case highlightText term q of
             None \<Rightarrow> None
           | Some content \<Rightarrow>
               map_option (\<lambda>ns. lead @ termNode g term content # ns)
                 (spanNodes g q raw (start + length term) rest)))"

lemma regexExec_None:
  "regexExec pats s i = None \<Longrightarrow> i \<le> j \<Longrightarrow> j \<le> length s \<Longrightarrow>
   firstAlternative pats s j = None"
proof (induction pats s i rule: regexExec.induct)
  case (1 pats s i)
  from 1(3,4) have le: "\<not> length s < i" by simp
  with 1(2) have no: "firstAlternative pats s i = None"
    and rec: "regexExec pats s (i + 1) = None"
    by (subst (asm) regexExec.simps, simp split: option.splits)+
  show ?case
  proof (cases "j = i")
    case True
    with no show ?thesis by simp
  next
    case False
    with 1(3) have "i + 1 \<le> j" by simp
    from 1(1) [OF le no rec this 1(4)] show ?thesis .
  qed
qed

lemma matchingTerms_empty:
  "set terms = set keys \<Longrightarrow>
   matchingTerms keys raw i = [] \<longleftrightarrow> firstAlternative (map termPattern terms) raw i = None"
  by (auto simp: matchingTerms_def firstAlternative_terms find_None_iff filter_empty_conv)

lemma glossaryLoop_spans:
  assumes ne: "\<forall>t \<in> set terms. t \<noteq> []"
    and sorted: "sorted_wrt (\<lambda>a b. length b \<le> length a) terms"
    and keys: "set terms = set keys"
  shows "\<exists>spans ns. glossaryLoop g (map termPattern terms) q raw e acc = Some (acc @ ns)
    \<and> spanNodes g q raw e spans = Some ns \<and> scanOk keys raw e spans"
proof (induction "Suc (length raw) - e" arbitrary: e acc rule: less_induct)
  case less
  let ?pats = "map termPattern terms"
  show ?case
  proof (cases "regexExec ?pats raw e")
    case None
    have no: "matchingTerms keys raw i = []" if "e \<le> i" "i \<le> length raw" for i
      using regexExec_None [OF None that] by (simp add: matchingTerms_empty [OF keys])
    then have ok: "scanOk keys raw e []"
      by (auto simp: list_all_iff)
    show ?thesis
    proof (cases "e < length raw")
      case True
      obtain h where h: "highlightText (drop e raw) q = Some h"
        using highlightText_returns [of "drop e raw" q] by blast
      have "glossaryLoop g ?pats q raw e acc = Some (acc @ [h])"
        using None True h by (subst glossaryLoop.simps) simp
      moreover have "spanNodes g q raw e [] = Some [h]"
        using True h by simp
      ultimately show ?thesis using ok by blast
    next
      case False
      have "glossaryLoop g ?pats q raw e acc = Some (acc @ [])"
        using None False by (subst glossaryLoop.simps) simp
      moreover have "spanNodes g q raw e [] = Some []"
        using False by simp
      ultimately show ?thesis using ok by blast
    qed
  next
    case (Some m)
    obtain start tm where m: "m = (start, tm)" by (cases m)
    from regexExec_Some [OF Some [unfolded m]] have
      le: "e \<le> start"
      and f: "find (\<lambda>t. termMatchesAt (termPattern t) raw start) terms = Some tm"
      and before: "\<And>j. e \<le> j \<Longrightarrow> j < start \<Longrightarrow> firstAlternative ?pats raw j = None"
      unfolding firstAlternative_terms by auto
    from f have mem: "tm \<in> set terms" and mt: "termMatchesAt (termPattern tm) raw start"
      by (auto simp: find_Some_iff)
    from mem ne have tne: "tm \<noteq> []" by simp
    from mt have bound: "start + length tm \<le> length raw"
      by (simp add: termMatchesAt_def termPattern_def occursAt_def)
    have longest: "length t \<le> length tm" if "t \<in> set (matchingTerms keys raw start)" for t
      using find_sorted_wrt [OF sorted f, of t] that keys by (auto simp: matchingTerms_def)
    have none_before: "matchingTerms keys raw j = []" if "e \<le> j" "j < start" for j
      using before [OF that] by (simp add: matchingTerms_empty [OF keys])
    obtain content where c: "highlightText tm q = Some content"
      using highlightText_returns [of "tm" q] by blast
    obtain lead where l: "(if start > e
                 then map_option (\<lambda>h. [h]) (highlightText (slice raw e start) q)
                 else Some []) = Some lead"
      using highlightText_returns [of "slice raw e start" q] by (cases "start > e") auto
    let ?e' = "start + length tm"
    let ?acc' = "acc @ lead @ [termNode g tm content]"
    have step: "glossaryLoop g ?pats q raw e acc = glossaryLoop g ?pats q raw ?e' ?acc'"
      by (subst glossaryLoop.simps) (simp add: Some m c l)
    have "Suc (length raw) - ?e' < Suc (length raw) - e"
      using le tne bound by (cases tm) auto
    from less.hyps [OF this, of ?acc'] obtain spans ns where
      r: "glossaryLoop g ?pats q raw ?e' ?acc' = Some (?acc' @ ns)"
      and sn: "spanNodes g q raw ?e' spans = Some ns"
      and ok: "scanOk keys raw ?e' spans"
      by blast
    have "glossaryLoop g ?pats q raw e acc
        = Some (acc @ (lead @ termNode g tm content # ns))"
      using step r by simp
    moreover have "spanNodes g q raw e ((start, tm) # spans)
        = Some (lead @ termNode g tm content # ns)"
      using c l sn by simp
    moreover have "scanOk keys raw e ((start, tm) # spans)"
      using le none_before mem mt keys longest ok
      by (auto simp: list_all_iff matchingTerms_def)
    ultimately show ?thesis by blast
  qed
qed

subsection \<open>The terms of a built glossary are not empty\<close>

lemma mapKeys_mapGet: "k \<in> set (mapKeys m) \<longleftrightarrow> mapGet m k \<noteq> None"
  by (simp add: mapKeys_def mapGet_def map_of_eq_None_iff)

lemma tooltip_key_nonempty:
  "k \<in> set (mapKeys (buildTooltipTerms A S K)) \<Longrightarrow> k \<noteq> []"
proof -
  assume "k \<in> set (mapKeys (buildTooltipTerms A S K))"
  then have "mapGet (foldl addTooltip [] (registrations A S K)) k \<noteq> None"
    by (simp add: mapKeys_mapGet buildTooltipTerms_foldl)
  then have "registered k (registrations A S K) \<noteq> []"
    by (auto simp: foldl_addTooltip mapGet_Nil)
  then obtain e where "e \<in> set (registered k (registrations A S K))"
    by (cases "registered k (registrations A S K)") auto
  then show ?thesis by (auto simp: registered_def)
qed

lemma headingsOf_title: "(t, c) \<in> set (headingsOf d s) \<Longrightarrow> 4 \<le> length t"
  by (auto simp: headingsOf_def Let_def split: if_splits)

lemma link_key_nonempty:
  assumes "buildAnchorMaps docs = Some (links, anchors)" and "k \<in> set (mapKeys links)"
  shows "k \<noteq> []"
proof -
  from buildAnchorMaps_links [of docs] assms(1) have
    "mapGet links k = (if headingGroup docs k = [] then None
                       else Some (resolveGroup (headingGroup docs k)))"
    by auto
  with assms(2) have "headingGroup docs k \<noteq> []"
    by (auto simp: mapKeys_mapGet)
  then have "\<exists>h \<in> set (collectedHeadings docs). fst h = k"
    by (auto simp: headingGroup_def groupIn_def filter_empty_conv)
  then obtain c where "(k, c) \<in> set (collectedHeadings docs)"
    by force
  then obtain d s where "(k, c) \<in> set (headingsOf d s)"
    by (auto simp: collectedHeadings_def)
  from headingsOf_title [OF this] show ?thesis by auto
qed

lemma buildGlossary_links:
  assumes "buildGlossary A S K docs = Some g"
  shows "\<exists>anchors. buildAnchorMaps docs = Some (linkTerms g, anchors)"
  using assms
  by (auto simp: buildGlossary_def Let_def split: option.splits prod.splits if_splits)

lemma buildGlossary_regex_None:
  assumes "buildGlossary A S K docs = Some g" and "glossary_regex g = None"
  shows "glossaryTerms (tooltipTerms g) (linkTerms g) = []"
  using assms
  by (auto simp: buildGlossary_def Let_def split: option.splits prod.splits if_splits)

lemma glossaryKeys_nonempty:
  assumes "buildGlossary A S K docs = Some g" and "t \<in> set (glossaryKeys g)"
  shows "t \<noteq> []"
proof -
  from buildGlossary_links [OF assms(1)] obtain anchors where
    b: "buildAnchorMaps docs = Some (linkTerms g, anchors)" by blast
  from assms(2) consider "t \<in> set (mapKeys (tooltipTerms g))" | "t \<in> set (mapKeys (linkTerms g))"
    by (auto simp: glossaryKeys_def)
  then show ?thesis
  proof cases
    case 1
    then show ?thesis
      using tooltip_key_nonempty [of t A S K] buildGlossary_Some(1) [OF assms(1)] by simp
  next
    case 2
    with b show ?thesis by (rule link_key_nonempty)
  qed
qed

lemmas render_eval =
  renderGlossaryText_def renderKeywordText_def highlightText_def termNode_def
  firstAlternative_def termMatchesAt_def wordBoundary_def isWordAt_def slice_def
  regexExec.simps glossaryLoop.simps highlightLoop.simps

text \<open>
  C1, as amended. For a built glossary whose term set is not empty, the composite matcher
  is the alternation of the glossary terms sorted by descending length, and annotating a
  text returns. Its annotations are those of a scan from left to right: each is made at
  the first position, from the end of the one before, at which some glossary term
  matches, a term matching where it occurs literally with a word boundary at each end
  that is a character of \<^verbatim>\<open>[A-Za-z0-9]\<close>; it is one node covering a term that matches
  there and than which no glossary term matching there is longer; the scan goes on after
  the end of that term, and the text outside the annotations has no position left at
  which a term matches. So where a longer term and a shorter term contained in it both
  match at a position the scan reaches, the single annotation made there covers the
  longer term. With no glossary term, the text goes to the search highlighter.
\<close>

theorem glossary_match_longest_first:
  assumes "buildGlossary ATTRIBUTE_TOOLTIPS SKILL_TOOLTIPS WEAPON_KEYWORDS docs = Some g"
  shows "(case glossary_regex g of
            None \<Rightarrow> glossaryKeys g = [] \<and> renderGlossaryText raw q g = highlightText raw q
          | Some pats \<Rightarrow>
              pats = map termPattern (glossaryTerms (tooltipTerms g) (linkTerms g))
              \<and> set (glossaryTerms (tooltipTerms g) (linkTerms g)) = set (glossaryKeys g)
              \<and> sorted_wrt (\<lambda>a b. length b \<le> length a)
                   (glossaryTerms (tooltipTerms g) (linkTerms g))
              \<and> (\<exists>spans nodes.
                    renderGlossaryText raw q g = Some (Fragment nodes)
                    \<and> spanNodes g q raw 0 spans = Some nodes
                    \<and> scanOk (glossaryKeys g) raw 0 spans))"
proof (cases "glossary_regex g")
  case None
  from buildGlossary_regex_None [OF assms None]
  have "set (glossaryKeys g) = {}"
    using set_glossaryTerms [of "tooltipTerms g" "linkTerms g"] by (simp add: glossaryKeys_def)
  then have "glossaryKeys g = []" by simp
  with None show ?thesis by (simp add: renderGlossaryText_def)
next
  case (Some pats)
  let ?terms = "glossaryTerms (tooltipTerms g) (linkTerms g)"
  have pats: "pats = map termPattern ?terms"
    using buildGlossary_Some(2) [OF assms Some] .
  have keys: "set ?terms = set (glossaryKeys g)"
    by (simp add: set_glossaryTerms glossaryKeys_def)
  have ne: "\<forall>t \<in> set ?terms. t \<noteq> []"
    using glossaryKeys_nonempty [OF assms] keys by blast
  from glossaryLoop_spans [OF ne sorted_glossaryTerms keys, of g q raw 0 "[]"]
  obtain spans ns where
    "glossaryLoop g pats q raw 0 [] = Some ns" "spanNodes g q raw 0 spans = Some ns"
    "scanOk (glossaryKeys g) raw 0 spans"
    unfolding pats by auto
  then have "\<exists>spans nodes.
                    renderGlossaryText raw q g = Some (Fragment nodes)
                    \<and> spanNodes g q raw 0 spans = Some nodes
                    \<and> scanOk (glossaryKeys g) raw 0 spans"
    using Some by (auto simp: renderGlossaryText_def)
  with Some pats keys sorted_glossaryTerms [of "tooltipTerms g" "linkTerms g"]
  show ?thesis by simp
qed


theorem glossary_match_longest_first_witness:
  "buildGlossary [(''Strength'', ''Raw power'')] [(''Strength Save'', ''A save'')] [] []
     = Some \<lparr>glossary_regex =
               Some [\<lparr>startsWord = True, pat_term = ''Strength Save'', endsWord = True\<rparr>,
                     \<lparr>startsWord = True, pat_term = ''Strength'', endsWord = True\<rparr>],
             linkTerms = [],
             tooltipTerms = [(''Strength'', ''Raw power''), (''Strength Save'', ''A save'')],
             anchorToDoc = []\<rparr>
   \<and> (\<exists>spans nodes.
        renderGlossaryText ''Strength Save'' []
          \<lparr>glossary_regex =
               Some [\<lparr>startsWord = True, pat_term = ''Strength Save'', endsWord = True\<rparr>,
                     \<lparr>startsWord = True, pat_term = ''Strength'', endsWord = True\<rparr>],
             linkTerms = [],
             tooltipTerms = [(''Strength'', ''Raw power''), (''Strength Save'', ''A save'')],
             anchorToDoc = []\<rparr> = Some (Fragment nodes)
        \<and> spanNodes
          \<lparr>glossary_regex =
               Some [\<lparr>startsWord = True, pat_term = ''Strength Save'', endsWord = True\<rparr>,
                     \<lparr>startsWord = True, pat_term = ''Strength'', endsWord = True\<rparr>],
             linkTerms = [],
             tooltipTerms = [(''Strength'', ''Raw power''), (''Strength Save'', ''A save'')],
             anchorToDoc = []\<rparr> [] ''Strength Save'' 0 spans = Some nodes
        \<and> scanOk [''Strength'', ''Strength Save''] ''Strength Save'' 0 spans)
   \<and> matchingTerms [''Strength'', ''Strength Save''] ''Strength Save'' 0
       = [''Strength'', ''Strength Save'']
   \<and> scanOk [''Strength'', ''Strength Save''] ''Strength Save'' 0 [(0, ''Strength Save'')]
   \<and> renderGlossaryText ''Strength Save'' []
        \<lparr>glossary_regex =
               Some [\<lparr>startsWord = True, pat_term = ''Strength Save'', endsWord = True\<rparr>,
                     \<lparr>startsWord = True, pat_term = ''Strength'', endsWord = True\<rparr>],
             linkTerms = [],
             tooltipTerms = [(''Strength'', ''Raw power''), (''Strength Save'', ''A save'')],
             anchorToDoc = []\<rparr>
      = Some (Fragment [TooltipSpan ''A save'' (Text ''Strength Save'')])"
proof -
  let ?pats = "[\<lparr>startsWord = True, pat_term = ''Strength Save'', endsWord = True\<rparr>,
                \<lparr>startsWord = True, pat_term = ''Strength'', endsWord = True\<rparr>]"
  let ?g = "\<lparr>glossary_regex = Some ?pats, linkTerms = [],
             tooltipTerms = [(''Strength'', ''Raw power''), (''Strength Save'', ''A save'')],
             anchorToDoc = []\<rparr>"
  have b: "buildGlossary [(''Strength'', ''Raw power'')] [(''Strength Save'', ''A save'')] [] []
     = Some ?g"
    by (simp add: glossary_eval string_eval)
  have k: "glossaryKeys ?g = [''Strength'', ''Strength Save'']"
    by (simp add: glossaryKeys_def mapKeys_def)
  have ex: "\<exists>spans nodes.
        renderGlossaryText ''Strength Save'' [] ?g = Some (Fragment nodes)
        \<and> spanNodes ?g [] ''Strength Save'' 0 spans = Some nodes
        \<and> scanOk [''Strength'', ''Strength Save''] ''Strength Save'' 0 spans"
  proof -
    have sel: "glossary_regex ?g = Some ?pats" by simp
    note th = glossary_match_longest_first [OF b, of "''Strength Save''" "[]",
        unfolded sel option.case]
    from th [THEN conjunct2, THEN conjunct2, THEN conjunct2]
    show ?thesis unfolding k .
  qed
  have m0: "matchingTerms [''Strength'', ''Strength Save''] ''Strength Save'' 0
       = [''Strength'', ''Strength Save'']"
    by (simp add: matchingTerms_def termPattern_def render_eval occursAt_def string_eval)
  have s: "scanOk [''Strength'', ''Strength Save''] ''Strength Save'' 0 [(0, ''Strength Save'')]"
    by (simp add: upt_rec matchingTerms_def termPattern_def render_eval occursAt_def
        string_eval)
  have r: "renderGlossaryText ''Strength Save'' [] ?g
      = Some (Fragment [TooltipSpan ''A save'' (Text ''Strength Save'')])"
    by (simp add: render_eval mapGet_def occursAt_def string_eval)
  from b ex m0 s r show ?thesis by blast
qed

text \<open>
  The claim as stated fails: the text \<^verbatim>\<open>Strength Saves\<close> has the longer term at
  position 0, where a word character follows it, and the annotation made at position 0
  covers the shorter term only.
\<close>

theorem glossary_longer_term_counterexample:
  "buildGlossary [(''Strength'', ''Raw power'')] [(''Strength Save'', ''A save'')] [] []
     = Some \<lparr>glossary_regex =
               Some [\<lparr>startsWord = True, pat_term = ''Strength Save'', endsWord = True\<rparr>,
                     \<lparr>startsWord = True, pat_term = ''Strength'', endsWord = True\<rparr>],
             linkTerms = [],
             tooltipTerms = [(''Strength'', ''Raw power''), (''Strength Save'', ''A save'')],
             anchorToDoc = []\<rparr>
   \<and> occursAt ''Strength Saves'' ''Strength Save'' 0
   \<and> renderGlossaryText ''Strength Saves'' []
        \<lparr>glossary_regex =
               Some [\<lparr>startsWord = True, pat_term = ''Strength Save'', endsWord = True\<rparr>,
                     \<lparr>startsWord = True, pat_term = ''Strength'', endsWord = True\<rparr>],
             linkTerms = [],
             tooltipTerms = [(''Strength'', ''Raw power''), (''Strength Save'', ''A save'')],
             anchorToDoc = []\<rparr>
      = Some (Fragment [TooltipSpan ''Raw power'' (Text ''Strength''), Text '' Saves''])"
  by (simp add: glossary_eval render_eval mapGet_def occursAt_def string_eval)

text \<open>
  C3, as amended. A keyword-table cell with a token that the keyword matcher does not
  resolve is rendered whole by the search highlighter alone: the result is that of
  \<^verbatim>\<open>highlightText\<close> on the cell text, which returns and holds only strings and marks,
  with no keyword link and no glossary tooltip or link.
\<close>

theorem renderKeywordText_unresolved:
  assumes "list_ex (\<lambda>part. resolveWeaponKeyword WEAPON_KEYWORDS part = None)
             (splitKeywordList cell)"
  shows "renderKeywordText WEAPON_KEYWORDS cell q glossary = highlightText cell q
    \<and> (\<exists>n. highlightText cell q = Some n \<and> onlyHighlights n)"
proof -
  have "list_ex (\<lambda>r. r = None) (map (resolveWeaponKeyword WEAPON_KEYWORDS) (splitKeywordList cell))"
    using assms by (force simp: list_ex_iff)
  then have "renderKeywordText WEAPON_KEYWORDS cell q glossary = highlightText cell q"
    by (simp add: renderKeywordText_def Let_def)
  with highlightText_returns [of cell q] show ?thesis by simp
qed

theorem renderKeywordText_unresolved_witness:
  "list_ex (\<lambda>part. resolveWeaponKeyword
                     [\<lparr>kw_name = ''Reach (X)'', kw_description = ''Strike at range X.''\<rparr>] part = None)
     (splitKeywordList ''Strength, Reach (3)'')
   \<and> renderKeywordText [\<lparr>kw_name = ''Reach (X)'', kw_description = ''Strike at range X.''\<rparr>]
        ''Strength, Reach (3)'' ''reach''
        \<lparr>glossary_regex = None, linkTerms = [], tooltipTerms = [], anchorToDoc = []\<rparr>
      = Some (Fragment [Text ''Strength, '', Mark ''Reach'', Text '' (3)''])"
proof -
  let ?kw = "[\<lparr>kw_name = ''Reach (X)'', kw_description = ''Strike at range X.''\<rparr>]"
  have s: "splitKeywordList ''Strength, Reach (3)'' = [''Strength'', ''Reach (3)'']"
    by (simp add: splitKeywordList_def string_eval)
  have n: "resolveWeaponKeyword ?kw ''Strength'' = None"
    by (simp add: keyword_eval string_eval)
  have u: "list_ex (\<lambda>part. resolveWeaponKeyword ?kw part = None)
     (splitKeywordList ''Strength, Reach (3)'')"
    unfolding s using n by simp
  have h: "highlightText ''Strength, Reach (3)'' ''reach''
      = Some (Fragment [Text ''Strength, '', Mark ''Reach'', Text '' (3)''])"
    by (simp add: highlightText_def highlightLoop.simps indexOf.simps occursAt_def slice_def
        string_eval)
  from renderKeywordText_unresolved [OF u, of "''reach''"
      "\<lparr>glossary_regex = None, linkTerms = [], tooltipTerms = [], anchorToDoc = []\<rparr>"] h u
  show ?thesis by simp
qed

text \<open>
  The claim as stated fails: with the tooltip term \<^verbatim>\<open>Strength\<close> in the glossary, the
  cell \<^verbatim>\<open>Strength, Reach (3)\<close>, whose first token is no keyword, is rendered as plain
  text, where the glossary annotator puts a tooltip on \<^verbatim>\<open>Strength\<close>.
\<close>

theorem renderKeywordText_fallback_counterexample:
  "resolveWeaponKeyword [\<lparr>kw_name = ''Reach (X)'', kw_description = ''Strike at range X.''\<rparr>]
     ''Strength'' = None
   \<and> renderKeywordText [\<lparr>kw_name = ''Reach (X)'', kw_description = ''Strike at range X.''\<rparr>]
        ''Strength, Reach (3)'' []
        \<lparr>glossary_regex = Some [\<lparr>startsWord = True, pat_term = ''Strength'', endsWord = True\<rparr>],
         linkTerms = [], tooltipTerms = [(''Strength'', ''Raw power'')], anchorToDoc = []\<rparr>
      = Some (Text ''Strength, Reach (3)'')
   \<and> renderGlossaryText ''Strength, Reach (3)'' []
        \<lparr>glossary_regex = Some [\<lparr>startsWord = True, pat_term = ''Strength'', endsWord = True\<rparr>],
         linkTerms = [], tooltipTerms = [(''Strength'', ''Raw power'')], anchorToDoc = []\<rparr>
      = Some (Fragment [TooltipSpan ''Raw power'' (Text ''Strength''), Text '', Reach (3)''])"
  by (simp add: keyword_eval render_eval mapGet_def string_eval)

end
